theory Spec2Isabelle
  imports Main "HOL-Library.Word"
begin

section \<open>AddressCodec: \<open>toBase58\<close> of worker/src/grpc.ts\<close>

text \<open>
  A \<open>Uint8Array\<close> is a list of 8-bit words. The digits and the carry are JavaScript
  numbers; every value they take is a small non-negative integer (a digit is below 58,
  the carry below \<open>256 * 58\<close>), so they are natural numbers and \<open>digits[i] << 8\<close> is
  the multiplication by 256.
\<close>

type_synonym byte = "8 word"

definition ALPHABET :: string where
  "ALPHABET = ''123456789ABCDEFGHJKLMNPQRSTUVWXYZabcdefghijkmnopqrstuvwxyz''"

text \<open>
  The inner \<open>for\<close> loop over the digits, least significant first:
  \<open>carry += digits[i] << 8; digits[i] = carry % 58; carry = Math.floor(carry / 58)\<close>.
  It returns the rewritten digits and the carry that is left.
\<close>

fun carry_digits :: "nat \<Rightarrow> nat list \<Rightarrow> nat list \<times> nat" where
  "carry_digits carry [] = ([], carry)"
| "carry_digits carry (d # ds) =
     (let c = carry + d * 256 in
      case carry_digits (c div 58) ds of (ds', c') \<Rightarrow> ((c mod 58) # ds', c'))"

text \<open>
  \<open>while (carry > 0) { digits.push(carry % 58); carry = Math.floor(carry / 58) }\<close>:
  the digits pushed, in the order they are pushed.
\<close>

function push_carry :: "nat \<Rightarrow> nat list" where
  "push_carry carry = (if carry > 0 then (carry mod 58) # push_carry (carry div 58) else [])"
  by pat_completeness auto
termination
  by (relation "measure (\<lambda>c. c)") auto

declare push_carry.simps [simp del]

text \<open>One round of the outer loop \<open>for (const byte of bytes)\<close>.\<close>

definition add_byte :: "nat list \<Rightarrow> byte \<Rightarrow> nat list" where
  "add_byte digits b = (case carry_digits (unat b) digits of (ds, c) \<Rightarrow> ds @ push_carry c)"

text \<open>
  The second loop appends \<open>ALPHABET[0]\<close> for every zero byte until the first non-zero
  byte (\<open>break\<close>).
\<close>

definition leading_zeros :: "byte list \<Rightarrow> string" where
  "leading_zeros bytes = map (\<lambda>_. ALPHABET ! 0) (takeWhile (\<lambda>b. b = 0) bytes)"

text \<open>
  \<open>digits\<close> starts as \<open>[0]\<close>; the last loop reads it from the most significant end.
\<close>

definition toBase58 :: "byte list \<Rightarrow> string" where
  "toBase58 bytes =
     (let digits = foldl add_byte [0] bytes
      in leading_zeros bytes @ map (\<lambda>d. ALPHABET ! d) (rev digits))"

text \<open>
  Modelled from the spec: the decoder (the repository has the encoder only). Section 4.1
  asks for the reversal of the encoding, leading-zero handling included: every leading
  zero-digit character \<open>1\<close> stands for one zero byte, and the remaining characters are
  the base-58 digits, most significant first, of the big-endian integer whose bytes
  follow. A character outside the alphabet has no decoding.
\<close>

fun index_of :: "char \<Rightarrow> string \<Rightarrow> nat option" where
  "index_of c [] = None"
| "index_of c (x # xs) =
     (if c = x then Some 0 else map_option Suc (index_of c xs))"

fun digits_of :: "string \<Rightarrow> nat list option" where
  "digits_of [] = Some []"
| "digits_of (c # cs) =
     (case index_of c ALPHABET of
        None \<Rightarrow> None
      | Some d \<Rightarrow> map_option (\<lambda>ds. d # ds) (digits_of cs))"

function be_bytes :: "nat \<Rightarrow> byte list" where
  "be_bytes n = (if n = 0 then [] else be_bytes (n div 256) @ [of_nat (n mod 256)])"
  by pat_completeness auto
termination
  by (relation "measure (\<lambda>n. n)") auto

declare be_bytes.simps [simp del]

definition fromBase58 :: "string \<Rightarrow> byte list option" where
  "fromBase58 s =
     (let zeros = takeWhile (\<lambda>c. c = ALPHABET ! 0) s;
          rest = dropWhile (\<lambda>c. c = ALPHABET ! 0) s
      in case digits_of rest of
           None \<Rightarrow> None
         | Some ds \<Rightarrow>
             Some (replicate (length zeros) 0 @ be_bytes (foldl (\<lambda>acc d. acc * 58 + d) 0 ds)))"

section \<open>JavaScript containers and encodings used by the worker\<close>

text \<open>
  A JavaScript \<open>Map\<close> iterates in insertion order and \<open>set\<close> on a key that is present
  replaces the value where it stands, so a \<open>Map\<close> is an association list with one entry
  for each key.
\<close>

type_synonym ('k, 'v) js_map = "('k \<times> 'v) list"

fun map_set :: "'k \<Rightarrow> 'v \<Rightarrow> ('k, 'v) js_map \<Rightarrow> ('k, 'v) js_map" where
  "map_set k v [] = [(k, v)]"
| "map_set k v (p # ps) = (if fst p = k then (k, v) # ps else p # map_set k v ps)"

definition map_get :: "('k, 'v) js_map \<Rightarrow> 'k \<Rightarrow> 'v option" where
  "map_get m k = map_of m k"

definition map_has :: "('k, 'v) js_map \<Rightarrow> 'k \<Rightarrow> bool" where
  "map_has m k = (map_of m k \<noteq> None)"

definition map_delete :: "'k \<Rightarrow> ('k, 'v) js_map \<Rightarrow> ('k, 'v) js_map" where
  "map_delete k m = filter (\<lambda>p. fst p \<noteq> k) m"

definition map_keys :: "('k, 'v) js_map \<Rightarrow> 'k list" where
  "map_keys m = map fst m"

definition map_values :: "('k, 'v) js_map \<Rightarrow> 'v list" where
  "map_values m = map snd m"

text \<open>\<open>Buffer.toString("hex")\<close>: two lower-case hexadecimal characters for each byte.\<close>

definition hex_digit :: "nat \<Rightarrow> char" where
  "hex_digit n = ''0123456789abcdef'' ! (n mod 16)"

definition to_hex :: "byte list \<Rightarrow> string" where
  "to_hex bs = concat (map (\<lambda>b. [hex_digit (unat b div 16), hex_digit (unat b)]) bs)"

text \<open>\<open>Buffer.toString("base64")\<close>: the standard alphabet, padded with \<open>=\<close>.\<close>

definition b64_char :: "nat \<Rightarrow> char" where
  "b64_char n =
     ''ABCDEFGHIJKLMNOPQRSTUVWXYZabcdefghijklmnopqrstuvwxyz0123456789+/'' ! (n mod 64)"

fun to_base64 :: "byte list \<Rightarrow> string" where
  "to_base64 [] = []"
| "to_base64 [a] =
     [b64_char (unat a div 4), b64_char (unat a mod 4 * 16), CHR ''='', CHR ''='']"
| "to_base64 [a, b] =
     [b64_char (unat a div 4), b64_char (unat a mod 4 * 16 + unat b div 16),
      b64_char (unat b mod 16 * 4), CHR ''='']"
| "to_base64 (a # b # c # rest) =
     [b64_char (unat a div 4), b64_char (unat a mod 4 * 16 + unat b div 16),
      b64_char (unat b mod 16 * 4 + unat c div 64), b64_char (unat c)] @ to_base64 rest"

text \<open>
  \<open>Number(x)\<close> for a \<open>bigint\<close> \<open>x\<close>: the nearest double, ties to even. A double holds
  53 significant bits, so an integer of at most 53 bits is kept and a longer one is
  rounded at the bit that no longer fits. (Beyond \<open>2 ^ 1024\<close> the result is
  \<open>Infinity\<close>; a slot is a 64-bit number and stays far below that.)
\<close>

function bit_length :: "nat \<Rightarrow> nat" where
  "bit_length n = (if n = 0 then 0 else Suc (bit_length (n div 2)))"
  by pat_completeness auto
termination
  by (relation "measure (\<lambda>n. n)") auto

declare bit_length.simps [simp del]

definition round_to_double :: "nat \<Rightarrow> nat" where
  "round_to_double n =
     (if bit_length n \<le> 53 then n
      else let k = bit_length n - 53;
               q = n div 2 ^ k;
               r = n mod 2 ^ k;
               half = 2 ^ (k - 1)
           in (if r > half \<or> (r = half \<and> odd q) then q + 1 else q) * 2 ^ k)"

definition Number_of_bigint :: "int \<Rightarrow> int" where
  "Number_of_bigint x = sgn x * int (round_to_double (nat \<bar>x\<bar>))"

section \<open>ChangeDetector: worker/src/processor.ts and worker/src/db.ts\<close>

text \<open>
  The three record shapes of the source share field names; the fields of
  \<open>AccountUpdate\<close> carry the prefix \<open>u_\<close>, those of \<open>BufferedUpdate\<close> the prefix
  \<open>b_\<close> and those of \<open>AccountState\<close> the prefix \<open>s_\<close>. A \<open>bigint\<close> is an
  \<open>int\<close>, a \<open>Buffer\<close> a list of bytes.
\<close>

record AccountUpdate =
  u_pubkey :: string
  u_owner :: string
  u_lamports :: int
  u_slot :: int
  u_data :: "byte list"
  u_executable :: bool
  u_rentEpoch :: int

record BufferedUpdate =
  b_pubkey :: string
  b_programId :: string
  b_slot :: int
  b_data :: "byte list"
  b_dataHash :: string
  b_discriminator :: "string option"
  b_isDeleted :: bool

datatype change_type = Create | Update | Delete

record AccountState =
  s_program_id :: string
  s_pubkey :: string
  s_created_at :: "string option"
  s_slot :: int
  s_discriminator :: "string option"
  s_change_type :: change_type
  s_data :: string
  s_data_hash :: string

datatype error =
  StreamNotConnected
| StoreError string
| WriteError string
| ConnectError string
| TypeError string

text \<open>
  The fields of \<open>ChangeProcessor\<close> that the buffer and the flush use (\<open>stats\<close> is
  flattened into its three counters; the interval handle of \<open>start\<close> and \<open>stop\<close> is
  not read by either).
\<close>

record ChangeProcessor =
  buffer :: "(string, BufferedUpdate) js_map"
  isProcessing :: bool
  updatesReceived :: nat
  changesDetected :: nat
  lastProcessedSlot :: int

definition new_ChangeProcessor :: ChangeProcessor where
  "new_ChangeProcessor =
     \<lparr>buffer = [], isProcessing = False, updatesReceived = 0, changesDetected = 0,
      lastProcessedSlot = 0\<rparr>"

text \<open>
  \<open>addUpdate\<close>. The SHA-256 digest in hexadecimal, \<open>createHash("sha256")\<close> of Node's
  library, is the parameter \<open>sha256\<close>.
\<close>

definition to_buffered :: "(byte list \<Rightarrow> string) \<Rightarrow> AccountUpdate \<Rightarrow> BufferedUpdate" where
  "to_buffered sha256 update =
     \<lparr>b_pubkey = u_pubkey update,
      b_programId = u_owner update,
      b_slot = u_slot update,
      b_data = u_data update,
      b_dataHash = sha256 (u_data update),
      b_discriminator =
        (if length (u_data update) \<ge> 8 then Some (to_hex (take 8 (u_data update))) else None),
      b_isDeleted = (u_lamports update = 0 \<or> length (u_data update) = 0)\<rparr>"

definition addUpdate ::
  "(byte list \<Rightarrow> string) \<Rightarrow> ChangeProcessor \<Rightarrow> AccountUpdate \<Rightarrow> ChangeProcessor" where
  "addUpdate sha256 st update =
     st\<lparr>updatesReceived := updatesReceived st + 1,
        buffer := map_set (u_pubkey update) (to_buffered sha256 update) (buffer st),
        lastProcessedSlot :=
          (if u_slot update > lastProcessedSlot st then u_slot update
           else lastProcessedSlot st)\<rparr>"

text \<open>
  The Store, as db.ts reaches it: the remote procedure \<open>get_latest_hashes\<close>, which
  answers with rows \<open>(pubkey, data_hash)\<close> or an error, and the insert into
  \<open>account_state\<close>, which answers with an error or nothing. (A \<open>null\<close> answer of the
  procedure is read as no rows, \<open>data || []\<close>.)
\<close>

record store =
  rpc_get_latest_hashes :: "string \<Rightarrow> string list \<Rightarrow> error + (string \<times> string) list"
  insert_account_state :: "AccountState list \<Rightarrow> error option"

definition getLatestHashes ::
  "store \<Rightarrow> string \<Rightarrow> string list \<Rightarrow> error + (string, string) js_map" where
  "getLatestHashes db programId pubkeys =
     (if pubkeys = [] then Inr []
      else case rpc_get_latest_hashes db programId pubkeys of
             Inl e \<Rightarrow> Inl e
           | Inr rows \<Rightarrow> Inr (foldl (\<lambda>hashMap row. map_set (fst row) (snd row) hashMap) [] rows))"

definition insertAccountStates :: "store \<Rightarrow> AccountState list \<Rightarrow> error option" where
  "insertAccountStates db states =
     (if states = [] then None else insert_account_state db states)"

text \<open>The first loop of \<open>processBuffer\<close>: group the snapshot by \<open>programId\<close>.\<close>

fun group_updates ::
  "BufferedUpdate list \<Rightarrow> (string, BufferedUpdate list) js_map \<Rightarrow>
   (string, BufferedUpdate list) js_map" where
  "group_updates [] updatesByProgram = updatesByProgram"
| "group_updates (update # updates) updatesByProgram =
     (let existing =
            (case map_get updatesByProgram (b_programId update) of
               None \<Rightarrow> []
             | Some e \<Rightarrow> e)
      in group_updates updates
           (map_set (b_programId update) (existing @ [update]) updatesByProgram))"

definition to_state :: "BufferedUpdate \<Rightarrow> AccountState" where
  "to_state update =
     \<lparr>s_program_id = b_programId update,
      s_pubkey = b_pubkey update,
      s_created_at = None,
      s_slot = Number_of_bigint (b_slot update),
      s_discriminator = b_discriminator update,
      s_change_type = (if b_isDeleted update then Delete else Update),
      s_data = to_base64 (b_data update),
      s_data_hash = b_dataHash update\<rparr>"

text \<open>
  The loop over one program's updates. \<open>!existingHash\<close> holds for a missing entry and
  for the empty string; both \<open>continue\<close>.
\<close>

fun detect_changes :: "(string, string) js_map \<Rightarrow> BufferedUpdate list \<Rightarrow> AccountState list" where
  "detect_changes existingHashes [] = []"
| "detect_changes existingHashes (update # updates) =
     (case map_get existingHashes (b_pubkey update) of
        None \<Rightarrow> detect_changes existingHashes updates
      | Some existingHash \<Rightarrow>
          if existingHash = [] then detect_changes existingHashes updates
          else if existingHash \<noteq> b_dataHash update
          then to_state update # detect_changes existingHashes updates
          else detect_changes existingHashes updates)"

text \<open>
  What a call of \<open>processBuffer\<close> does outside the processor: the batch it hands to
  \<open>insertAccountStates\<close> (empty when it does not get that far), how it ended, the error
  its \<open>catch\<close> logged, and the error that leaves the call.
\<close>

datatype flush_outcome = Skipped | LookupFailed | NoChanges | InsertFailed | Inserted

record flush_effects =
  outcome :: flush_outcome
  batch :: "AccountState list"
  logged :: "error option"
  thrown :: "error option"

text \<open>
  \<open>processBuffer\<close> is asynchronous: it is suspended at every \<open>await\<close>, once for the
  hash lookup of each program and once for the insert, and the stream's \<open>data\<close> events
  run \<open>addUpdate\<close> meanwhile. \<open>arrivals\<close> lists, for each \<open>await\<close> in turn, the updates
  delivered while the flush waits there (none once the list is used up). A timer tick
  during the flush finds \<open>isProcessing\<close> set and returns at once.
\<close>

definition deliver ::
  "(byte list \<Rightarrow> string) \<Rightarrow> AccountUpdate list list \<Rightarrow> ChangeProcessor \<Rightarrow> ChangeProcessor" where
  "deliver sha256 arrivals st =
     (case arrivals of [] \<Rightarrow> st | now # later \<Rightarrow> foldl (addUpdate sha256) st now)"

text \<open>
  The rest of the \<open>try\<close> block once the groups are built: the loop over the programs,
  then the insert and \<open>this.buffer.clear()\<close>. The third component is the error thrown
  out of the block.
\<close>

fun process_groups ::
  "(byte list \<Rightarrow> string) \<Rightarrow> store \<Rightarrow> AccountUpdate list list \<Rightarrow> ChangeProcessor \<Rightarrow>
   (string, BufferedUpdate list) js_map \<Rightarrow> AccountState list \<Rightarrow>
   ChangeProcessor \<times> flush_effects" where
  "process_groups sha256 db arrivals st [] states =
     (if length states > 0 then
        (let st' = deliver sha256 arrivals st in
         case insertAccountStates db states of
           Some e \<Rightarrow>
             (st', \<lparr>outcome = InsertFailed, batch = states, logged = None, thrown = Some e\<rparr>)
         | None \<Rightarrow>
             (st'\<lparr>buffer := []\<rparr>,
              \<lparr>outcome = Inserted, batch = states, logged = None, thrown = None\<rparr>))
      else (st\<lparr>buffer := []\<rparr>,
            \<lparr>outcome = NoChanges, batch = [], logged = None, thrown = None\<rparr>))"
| "process_groups sha256 db arrivals st ((programId, programUpdates) # groups) states =
     (let pubkeys = map b_pubkey programUpdates;
          st' = deliver sha256 arrivals st
      in case getLatestHashes db programId pubkeys of
           Inl e \<Rightarrow>
             (st', \<lparr>outcome = LookupFailed, batch = [], logged = None, thrown = Some e\<rparr>)
         | Inr existingHashes \<Rightarrow>
             (let found = detect_changes existingHashes programUpdates
              in process_groups sha256 db (tl arrivals)
                   (st'\<lparr>changesDetected := changesDetected st' + length found\<rparr>)
                   groups (states @ found)))"

text \<open>
  \<open>processBuffer\<close>: the guard, the snapshot \<open>Array.from(this.buffer.values())\<close>, the
  \<open>try\<close> block, the \<open>catch\<close> that logs the error and does not throw it again, and
  \<open>finally\<close>.
\<close>

definition processBuffer ::
  "(byte list \<Rightarrow> string) \<Rightarrow> store \<Rightarrow> AccountUpdate list list \<Rightarrow> ChangeProcessor \<Rightarrow>
   ChangeProcessor \<times> flush_effects" where
  "processBuffer sha256 db arrivals st =
     (if isProcessing st \<or> length (buffer st) = 0
      then (st, \<lparr>outcome = Skipped, batch = [], logged = None, thrown = None\<rparr>)
      else
        (let updates = map_values (buffer st);
             updatesByProgram = group_updates updates [];
             (st', eff) =
               process_groups sha256 db arrivals (st\<lparr>isProcessing := True\<rparr>)
                 updatesByProgram []
         in (st'\<lparr>isProcessing := False\<rparr>, eff\<lparr>logged := thrown eff, thrown := None\<rparr>)))"

section \<open>StreamConnection: \<open>GrpcClient\<close> of worker/src/grpc.ts\<close>

text \<open>
  A subscription request. Its fields \<open>transactions\<close>, \<open>transactionsStatus\<close>,
  \<open>blocks\<close>, \<open>blocksMeta\<close> and \<open>entry\<close> are the empty object and
  \<open>accountsDataSlice\<close> the empty array in every request the client builds; they are
  left out. \<open>slots\<close> maps a key to its \<open>filterByCommitment\<close>.
\<close>

record account_filter =
  f_owner :: "string list"
  f_account :: "string list"
  f_filters :: "string list"

datatype CommitmentLevel = PROCESSED | CONFIRMED | FINALIZED

record SubscribeRequest =
  accounts :: "(string, account_filter) js_map"
  slots :: "(string, bool) js_map"
  commitment :: "CommitmentLevel option"
  ping :: "nat option"

text \<open>
  The client. \<open>stream\<close> is \<open>null\<close> or the open duplex stream, named by a number;
  \<open>pingInterval\<close> tells whether the keepalive timer is set. Two more fields record what
  the client does to the outside: \<open>written\<close>, the requests handed to \<open>stream.write\<close>
  with the stream they went to, and \<open>scheduled\<close>, the delays in milliseconds of the
  reconnect timers set with \<open>setTimeout\<close>.
\<close>

record GrpcClient =
  stream :: "nat option"
  subscriptions :: "(string, string) js_map"
  reconnecting :: bool
  reconnectAttempts :: nat
  pingInterval :: bool
  written :: "(nat \<times> SubscribeRequest) list"
  scheduled :: "nat list"

definition maxReconnectAttempts :: nat where
  "maxReconnectAttempts = 20"

definition baseReconnectDelay :: nat where
  "baseReconnectDelay = 1000"

definition maxReconnectDelay :: nat where
  "maxReconnectDelay = 60000"

definition new_GrpcClient :: GrpcClient where
  "new_GrpcClient =
     \<lparr>stream = None, subscriptions = [], reconnecting = False, reconnectAttempts = 0,
      pingInterval = False, written = [], scheduled = []\<rparr>"

text \<open>
  \<open>handleAccountUpdate\<close>: the identifiers of an account message are encoded with
  \<open>toBase58\<close>, and the decoded update goes to the callback, which is \<open>addUpdate\<close> of
  the change processor (worker/src/index.ts). The numbers of the message arrive as the
  \<open>bigint\<close> values they are converted to.
\<close>

record account_info =
  i_pubkey :: "byte list"
  i_owner :: "byte list"
  i_lamports :: int
  i_data :: "byte list"
  i_executable :: bool
  i_rentEpoch :: int

definition handleAccountUpdate :: "account_info \<Rightarrow> int \<Rightarrow> AccountUpdate" where
  "handleAccountUpdate accountInfo slot =
     \<lparr>u_pubkey = toBase58 (i_pubkey accountInfo),
      u_owner = toBase58 (i_owner accountInfo),
      u_lamports = i_lamports accountInfo,
      u_slot = slot,
      u_data = i_data accountInfo,
      u_executable = i_executable accountInfo,
      u_rentEpoch = i_rentEpoch accountInfo\<rparr>"

text \<open>
  An asynchronous method returns the error its promise is rejected with, or \<open>None\<close>,
  and the client as the call leaves it.
\<close>

definition subscribeToProgram :: "string \<Rightarrow> GrpcClient \<Rightarrow> error option \<times> GrpcClient" where
  "subscribeToProgram programId c =
     (if stream c = None then (Some StreamNotConnected, c)
      else if map_has (subscriptions c) programId then (None, c)
      else (None, c\<lparr>subscriptions :=
                       map_set programId (''program_'' @ programId) (subscriptions c)\<rparr>))"

text \<open>The combined request that \<open>sendSubscriptions\<close> builds from the subscription map.\<close>

definition subscription_request :: "(string, string) js_map \<Rightarrow> SubscribeRequest" where
  "subscription_request subs =
     \<lparr>accounts =
        foldl (\<lambda>accountsFilter entry.
                 map_set (snd entry)
                   \<lparr>f_owner = [fst entry], f_account = [], f_filters = []\<rparr> accountsFilter)
          [] subs,
      slots = [(''slots'', True)],
      commitment = Some CONFIRMED,
      ping = None\<rparr>"

text \<open>
  \<open>write_error\<close> is what the callback of \<open>stream.write\<close> receives: an error or nothing.
\<close>

definition sendSubscriptions :: "error option \<Rightarrow> GrpcClient \<Rightarrow> error option \<times> GrpcClient" where
  "sendSubscriptions write_error c =
     (case stream c of
        None \<Rightarrow> (Some StreamNotConnected, c)
      | Some s \<Rightarrow>
          if length (subscriptions c) = 0 then (None, c)
          else (write_error,
                c\<lparr>written := written c @ [(s, subscription_request (subscriptions c))]\<rparr>))"

text \<open>
  The request of \<open>unsubscribeFromProgram\<close> (\<open>// Send empty subscription to remove\<close>).
\<close>

definition empty_request :: SubscribeRequest where
  "empty_request = \<lparr>accounts = [], slots = [], commitment = None, ping = None\<rparr>"

definition unsubscribeFromProgram ::
  "error option \<Rightarrow> string \<Rightarrow> GrpcClient \<Rightarrow> error option \<times> GrpcClient" where
  "unsubscribeFromProgram write_error programId c =
     (case stream c of
        None \<Rightarrow> (Some StreamNotConnected, c)
      | Some s \<Rightarrow>
          (case map_get (subscriptions c) programId of
             None \<Rightarrow> (None, c)
           | Some subscriptionKey \<Rightarrow>
               if subscriptionKey = [] then (None, c)
               else
                 (let c' = c\<lparr>written := written c @ [(s, empty_request)]\<rparr>
                  in case write_error of
                       Some e \<Rightarrow> (Some e, c')
                     | None \<Rightarrow>
                         (None, c'\<lparr>subscriptions :=
                                      map_delete programId (subscriptions c')\<rparr>))))"

definition getSubscribedPrograms :: "GrpcClient \<Rightarrow> string list" where
  "getSubscribedPrograms c = map_keys (subscriptions c)"

definition stopPingInterval :: "GrpcClient \<Rightarrow> GrpcClient" where
  "stopPingInterval c = c\<lparr>pingInterval := False\<rparr>"

definition startPingInterval :: "GrpcClient \<Rightarrow> GrpcClient" where
  "startPingInterval c = (stopPingInterval c)\<lparr>pingInterval := True\<rparr>"

text \<open>The callback of the keepalive timer, run at the time \<open>now\<close>.\<close>

definition send_ping :: "nat \<Rightarrow> GrpcClient \<Rightarrow> GrpcClient" where
  "send_ping now c =
     (case stream c of
        None \<Rightarrow> c
      | Some s \<Rightarrow> c\<lparr>written := written c @ [(s, empty_request\<lparr>ping := Some now\<rparr>)]\<rparr>)"

text \<open>
  \<open>resubscribeAll\<close>: the keys are read, the map is cleared, and \<open>subscribeToProgram\<close>
  is called for each key; an error of that call is logged and the loop goes on.
\<close>

definition resubscribeAll :: "GrpcClient \<Rightarrow> GrpcClient" where
  "resubscribeAll c =
     (let programs = map_keys (subscriptions c)
      in foldl (\<lambda>c' programId. snd (subscribeToProgram programId c'))
           (c\<lparr>subscriptions := []\<rparr>) programs)"

text \<open>
  \<open>connect\<close>. \<open>opened\<close> is the outcome of \<open>await this.client.subscribe()\<close>: an error,
  which \<open>connect\<close> logs and throws again, or the new stream.
\<close>

definition connect :: "error + nat \<Rightarrow> GrpcClient \<Rightarrow> error option \<times> GrpcClient" where
  "connect opened c =
     (case opened of
        Inl e \<Rightarrow> (Some e, c)
      | Inr s \<Rightarrow> (None, resubscribeAll (startPingInterval (c\<lparr>stream := Some s\<rparr>))))"

definition disconnect :: "GrpcClient \<Rightarrow> GrpcClient" where
  "disconnect c = (stopPingInterval c)\<lparr>stream := None, subscriptions := []\<rparr>"

text \<open>
  \<open>handleDisconnect\<close>, which the \<open>error\<close> and the \<open>end\<close> event of a stream both call.
  \<open>Math.pow(2, n)\<close> is exact for the values the counter takes.
\<close>

definition reconnect_delay :: "nat \<Rightarrow> nat" where
  "reconnect_delay attempts = min (baseReconnectDelay * 2 ^ attempts) maxReconnectDelay"

definition handleDisconnect :: "GrpcClient \<Rightarrow> GrpcClient" where
  "handleDisconnect c =
     (if reconnecting c then c
      else
        (let c1 = stopPingInterval (c\<lparr>reconnecting := True\<rparr>)
         in if reconnectAttempts c1 \<ge> maxReconnectAttempts then c1\<lparr>reconnecting := False\<rparr>
            else
              (let delay = reconnect_delay (reconnectAttempts c1)
               in c1\<lparr>reconnectAttempts := reconnectAttempts c1 + 1,
                     scheduled := scheduled c1 @ [delay]\<rparr>)))"

text \<open>
  The callback that \<open>handleDisconnect\<close> hands to \<open>setTimeout\<close>, run when the delay has
  passed.
\<close>

definition reconnect_timer :: "error + nat \<Rightarrow> GrpcClient \<Rightarrow> GrpcClient" where
  "reconnect_timer opened c =
     (case connect opened c of
        (None, c') \<Rightarrow> c'\<lparr>reconnectAttempts := 0, reconnecting := False\<rparr>
      | (Some e, c') \<Rightarrow> handleDisconnect (c'\<lparr>reconnecting := False\<rparr>))"

text \<open>
  The start of the worker (\<open>main\<close> of worker/src/index.ts) on the first stream: connect,
  subscribe to the two programs of config.ts, send the subscriptions.
\<close>

definition PROGRAM_IDS :: "string list" where
  "PROGRAM_IDS =
     [''MFv2hWf31Z9kbCa1snEPYctwafyhdvnV7FZnsebVacA'',
      ''stag8sTKds2h4KzjUw3zKTsxbqvT4XKHdaR9X9E6Rct'']"

definition started :: GrpcClient where
  "started =
     snd (sendSubscriptions None
       (foldl (\<lambda>c programId. snd (subscribeToProgram programId c))
          (snd (connect (Inr 0) new_GrpcClient)) PROGRAM_IDS))"

text \<open>
  The first stream breaks, and the reconnect timer opens the stream \<open>1\<close>.
\<close>

definition reconnected :: GrpcClient where
  "reconnected = reconnect_timer (Inr 1) (handleDisconnect started)"

section \<open>RetentionPruner: \<open>pruneAccountChanges\<close> of the cleanup job\<close>

text \<open>
  The table \<open>account_state\<close>, with the three columns of its primary key; the job reads
  no other column. \<open>created_at\<close> is a point in time; the job passes it back to the
  database as it received it, and the database compares it.
\<close>

record state_row =
  r_program_id :: string
  r_pubkey :: string
  r_created_at :: nat

definition same_record :: "string \<Rightarrow> string \<Rightarrow> state_row \<Rightarrow> bool" where
  "same_record programId pubkey r = (r_program_id r = programId \<and> r_pubkey r = pubkey)"

definition record_timestamps :: "state_row list \<Rightarrow> string \<Rightarrow> string \<Rightarrow> nat list" where
  "record_timestamps table programId pubkey =
     map r_created_at (filter (same_record programId pubkey) table)"

text \<open>
  The two statements the job sends: the select of \<open>created_at\<close> for one record, newest
  first, limited, and the delete of the record's rows with \<open>created_at\<close> below the
  cutoff (\<open>.lt("created_at", cutoffTimestamp)\<close>).
\<close>

datatype db_statement =
  SelectRecent string string nat
| DeleteOlder string string nat

definition select_recent :: "state_row list \<Rightarrow> string \<Rightarrow> string \<Rightarrow> nat \<Rightarrow> nat list" where
  "select_recent table programId pubkey limit =
     take limit (rev (sort (record_timestamps table programId pubkey)))"

definition delete_older :: "state_row list \<Rightarrow> string \<Rightarrow> string \<Rightarrow> nat \<Rightarrow> state_row list" where
  "delete_older table programId pubkey cutoff =
     filter (\<lambda>r. \<not> (same_record programId pubkey r \<and> r_created_at r < cutoff)) table"

text \<open>
  \<open>pruneAccountChanges\<close>, with \<open>MAX_CHANGES_PER_ACCOUNT\<close> as its first argument and the
  errors the two statements answer with as the next two. It returns the number it
  reports, the table it leaves and the statements it sent. With a limit of zero the
  select answers with no rows, the length test lets them pass, and reading
  \<open>created_at\<close> of \<open>keepStates[-1]\<close> throws.
\<close>

definition pruneAccountChanges ::
  "nat \<Rightarrow> error option \<Rightarrow> error option \<Rightarrow> state_row list \<Rightarrow> string \<Rightarrow> string \<Rightarrow>
   error + (nat \<times> state_row list \<times> db_statement list)" where
  "pruneAccountChanges max_changes selectError deleteError table programId pubkey =
     (let keepStates = select_recent table programId pubkey max_changes;
          sent = [SelectRecent programId pubkey max_changes]
      in case selectError of
           Some e \<Rightarrow> Inr (0, table, sent)
         | None \<Rightarrow>
             if length keepStates < max_changes then Inr (0, table, sent)
             else if keepStates = [] then Inl (TypeError ''created_at of undefined'')
             else
               (let cutoffTimestamp = keepStates ! (length keepStates - 1);
                    sent' = sent @ [DeleteOlder programId pubkey cutoffTimestamp]
                in case deleteError of
                     Some e \<Rightarrow> Inr (0, table, sent')
                   | None \<Rightarrow>
                       Inr (length table -
                              length (delete_older table programId pubkey cutoffTimestamp),
                            delete_older table programId pubkey cutoffTimestamp,
                            sent')))"

section \<open>AddressCodec: notions used to state the results\<close>

text \<open>
  The number a digit list stands for (least significant digit first, base 58), the number
  a byte string stands for (big-endian), digit lists whose entries are all below 58, and
  digit lists that end in a non-zero most significant digit.
\<close>

fun digits_value :: "nat list \<Rightarrow> nat" where
  "digits_value [] = 0"
| "digits_value (d # ds) = d + 58 * digits_value ds"

definition bytes_value :: "byte list \<Rightarrow> nat" where
  "bytes_value bs = foldl (\<lambda>acc b. acc * 256 + unat b) 0 bs"

definition base58_digits :: "nat list \<Rightarrow> bool" where
  "base58_digits ds = list_all (\<lambda>d. d < 58) ds"

definition top_digit_set :: "nat list \<Rightarrow> bool" where
  "top_digit_set ds = (ds \<noteq> [] \<and> last ds \<noteq> 0)"

section \<open>ChangeDetector: notions used to state the results\<close>

text \<open>
  The rows one program's group contributes to the batch when its lookup succeeds.
\<close>

fun rows_of :: "store \<Rightarrow> string \<times> BufferedUpdate list \<Rightarrow> AccountState list" where
  "rows_of db (pid, ups) =
     (case getLatestHashes db pid (map b_pubkey ups) of
        Inl e \<Rightarrow> []
      | Inr existingHashes \<Rightarrow> detect_changes existingHashes ups)"

text \<open>
  The buffer's invariant: one entry for each key, and the key of an entry is the pubkey of
  the update it holds. \<open>addUpdate\<close> is the only writer of entries and keeps it.
\<close>

definition keyed_by_pubkey :: "(string, BufferedUpdate) js_map \<Rightarrow> bool" where
  "keyed_by_pubkey buf = (distinct (map fst buf) \<and> list_all (\<lambda>p. b_pubkey (snd p) = fst p) buf)"

text \<open>The buffered updates that a flush groups under one program.\<close>

definition program_updates :: "ChangeProcessor \<Rightarrow> string \<Rightarrow> BufferedUpdate list" where
  "program_updates st programId =
     filter (\<lambda>b. b_programId b = programId) (map_values (buffer st))"

text \<open>
  Concrete inputs for the scenarios below: updates owned by the program \<open>P\<close>, a Store in
  which every record but \<open>N\<close> has the stored hash \<open>aa\<close>, and the same Store with an
  insert that fails. (Where a scenario needs a concrete digest function it uses \<open>to_hex\<close>;
  the theorems hold for every digest function.)
\<close>

definition demo_update :: "string \<Rightarrow> int \<Rightarrow> byte list \<Rightarrow> AccountUpdate" where
  "demo_update pk lamports bytes =
     \<lparr>u_pubkey = pk, u_owner = ''P'', u_lamports = lamports, u_slot = 7, u_data = bytes,
      u_executable = False, u_rentEpoch = 0\<rparr>"

definition demo_store :: store where
  "demo_store =
     \<lparr>rpc_get_latest_hashes =
        (\<lambda>programId pubkeys. Inr (map (\<lambda>pk. (pk, ''aa'')) (filter (\<lambda>pk. pk \<noteq> ''N'') pubkeys))),
      insert_account_state = (\<lambda>states. None)\<rparr>"

definition failing_store :: store where
  "failing_store = demo_store\<lparr>insert_account_state := (\<lambda>states. Some (StoreError ''insert failed''))\<rparr>"

text \<open>
  A flush of a buffer holding an update for \<open>A\<close>, during whose hash lookup the stream
  delivers an update for \<open>B\<close>.
\<close>

definition flush_with_arrival :: "(byte list \<Rightarrow> string) \<Rightarrow> ChangeProcessor \<times> flush_effects" where
  "flush_with_arrival sha =
     processBuffer sha demo_store [[demo_update ''B'' 1 [2]]]
       (addUpdate sha new_ChangeProcessor (demo_update ''A'' 1 [1]))"

text \<open>
  A Store in which the stored hash of every record is the digest of the bytes \<open>[2]\<close>
  followed by one more character: whatever the digest function is, this stored hash is
  not empty and differs from the digest of \<open>[2]\<close>. And a flush of a buffer holding an
  update for \<open>A\<close>, during whose hash lookup the stream delivers two updates for \<open>B\<close>,
  the last of them with the data \<open>[2]\<close>.
\<close>

definition stale_store :: "(byte list \<Rightarrow> string) \<Rightarrow> store" where
  "stale_store sha =
     \<lparr>rpc_get_latest_hashes =
        (\<lambda>programId pubkeys. Inr (map (\<lambda>pk. (pk, sha [2] @ ''x'')) pubkeys)),
      insert_account_state = (\<lambda>states. None)\<rparr>"

definition flush_with_sequence :: "(byte list \<Rightarrow> string) \<Rightarrow> ChangeProcessor \<times> flush_effects" where
  "flush_with_sequence sha =
     processBuffer sha (stale_store sha) [[demo_update ''B'' 1 [1], demo_update ''B'' 1 [2]]]
       (addUpdate sha new_ChangeProcessor (demo_update ''A'' 1 [1]))"

section \<open>StreamConnection: notions used to state the results\<close>

text \<open>
  The first stream event calls \<open>handleDisconnect\<close>; then, \<open>k\<close> times, the pending
  reconnect timer fires and its \<open>connect\<close> fails. When no timer is pending (the client
  is not reconnecting) nothing happens.
\<close>

fun failed_reconnects :: "nat \<Rightarrow> GrpcClient \<Rightarrow> GrpcClient" where
  "failed_reconnects 0 c = handleDisconnect c"
| "failed_reconnects (Suc k) c =
     (let c' = failed_reconnects k c
      in if reconnecting c' then reconnect_timer (Inl (ConnectError ''unavailable'')) c' else c')"

section \<open>RetentionPruner: notions used to state the results\<close>

text \<open>
  A table for the scenario of the pruner: fifteen rows of the record \<open>A\<close> and nine of
  the record \<open>B\<close>, in no particular order.
\<close>

definition demo_table :: "state_row list" where
  "demo_table =
     map (\<lambda>t. \<lparr>r_program_id = ''P'', r_pubkey = ''A'', r_created_at = t\<rparr>)
       [105, 101, 115, 110, 102, 114, 103, 113, 104, 112, 106, 111, 107, 109, 108] @
     map (\<lambda>t. \<lparr>r_program_id = ''P'', r_pubkey = ''B'', r_created_at = t\<rparr>)
       [109, 101, 108, 102, 107, 103, 106, 104, 105]"

section \<open>AddressCodec: results\<close>

lemma add_byte_zero_digit: "add_byte [0] 0 = [0]"
  by (simp add: add_byte_def push_carry.simps)

lemma foldl_add_byte_zeros: "foldl add_byte [0] (replicate n 0) = [0]"
  by (induction n) (simp_all add: add_byte_zero_digit)

lemma leading_zeros_replicate: "leading_zeros (replicate n 0) = replicate n (CHR ''1'')"
proof -
  have "takeWhile (\<lambda>b. b = 0) (replicate n (0::byte)) = replicate n 0"
    by (induction n) simp_all
  then show ?thesis
    by (simp add: leading_zeros_def ALPHABET_def map_replicate_const)
qed

lemma toBase58_zeros: "toBase58 (replicate n 0) = replicate (Suc n) (CHR ''1'')"
proof -
  have "toBase58 (replicate n 0) = replicate n (CHR ''1'') @ [CHR ''1'']"
    by (simp add: toBase58_def foldl_add_byte_zeros leading_zeros_replicate ALPHABET_def)
  then show ?thesis
    by (simp add: replicate_append_same)
qed

lemma fromBase58_ones: "fromBase58 (replicate n (CHR ''1'')) = Some (replicate n 0)"
proof -
  have t: "takeWhile (\<lambda>c. c = CHR ''1'') (replicate n (CHR ''1'')) = replicate n (CHR ''1'')"
    by (induction n) simp_all
  have d: "dropWhile (\<lambda>c. c = CHR ''1'') (replicate n (CHR ''1'')) = []"
    by (induction n) simp_all
  show ?thesis
    by (simp add: fromBase58_def ALPHABET_def t d be_bytes.simps)
qed

text \<open>
  Claim C1. The round trip fails on the all-zero identifier. The digit list starts as
  \<open>[0]\<close> and stays \<open>[0]\<close> while only zero bytes are read, so the encoder emits that
  digit after the 32 characters of the leading zero bytes: 32 zero bytes encode to 33
  characters \<open>1\<close>, which decode to 33 zero bytes and not to the input.
\<close>

theorem toBase58_all_zero_roundtrip_fails:
  "toBase58 (replicate 32 0) = replicate 33 (CHR ''1'') \<and>
   fromBase58 (toBase58 (replicate 32 0)) = Some (replicate 33 0) \<and>
   fromBase58 (toBase58 (replicate 32 0)) \<noteq> Some (replicate 32 0)"
proof -
  have e: "toBase58 (replicate 32 0) = replicate 33 (CHR ''1'')"
    using toBase58_zeros [of 32] by simp
  have d: "fromBase58 (replicate 33 (CHR ''1'')) = Some (replicate 33 0)"
    by (rule fromBase58_ones)
  have "length (replicate 33 (0::byte)) \<noteq> length (replicate 32 (0::byte))"
    by simp
  then have "replicate 33 (0::byte) \<noteq> replicate 32 0"
    by (metis length_replicate)
  with e d show ?thesis by simp
qed

text \<open>
  The defect is confined to the all-zero input: every byte string with a non-zero byte,
  of any length, is decoded back from its encoding. The digit list then stands for the
  number of the byte string and ends in a non-zero digit, so the characters of the
  leading zero bytes are exactly the leading \<open>1\<close> of the text.
\<close>

lemma carry_digits_value:
  "carry_digits c ds = (ds', c') \<Longrightarrow>
   digits_value ds' + 58 ^ length ds * c' = c + 256 * digits_value ds \<and>
   length ds' = length ds \<and> base58_digits ds'"
proof (induction ds arbitrary: c ds' c')
  case Nil
  then show ?case by (simp add: base58_digits_def)
next
  case (Cons d ds)
  obtain es c2 where r: "carry_digits ((c + d * 256) div 58) ds = (es, c2)"
    by (cases "carry_digits ((c + d * 256) div 58) ds")
  with Cons.prems have ds': "ds' = ((c + d * 256) mod 58) # es" and c': "c' = c2"
    by (simp_all add: Let_def)
  from Cons.IH [OF r] have v: "digits_value es + 58 ^ length ds * c2 =
      (c + d * 256) div 58 + 256 * digits_value ds"
    and l: "length es = length ds" and b: "base58_digits es"
    by simp_all
  define X where "X = c + d * 256"
  from v have v': "digits_value es + 58 ^ length ds * c2 = X div 58 + 256 * digits_value ds"
    by (simp add: X_def)
  have "digits_value ds' + 58 ^ length (d # ds) * c' =
      X mod 58 + 58 * (digits_value es + 58 ^ length ds * c2)"
    by (simp add: ds' c' X_def algebra_simps)
  also have "\<dots> = X mod 58 + 58 * (X div 58 + 256 * digits_value ds)"
    by (simp only: v')
  also have "\<dots> = (X mod 58 + 58 * (X div 58)) + 58 * 256 * digits_value ds"
    by (simp add: algebra_simps)
  also have "\<dots> = X + 58 * 256 * digits_value ds"
    by simp
  also have "\<dots> = c + 256 * digits_value (d # ds)"
    by (simp add: X_def algebra_simps)
  finally have "digits_value ds' + 58 ^ length (d # ds) * c' = c + 256 * digits_value (d # ds)" .
  moreover have "length ds' = length (d # ds)"
    by (simp add: ds' l)
  moreover have "base58_digits ds'"
    using b by (simp add: ds' base58_digits_def)
  ultimately show ?case by blast
qed

lemma push_carry_value:
  "digits_value (push_carry c) = c \<and> base58_digits (push_carry c) \<and>
   (c = 0 \<longrightarrow> push_carry c = []) \<and> (0 < c \<longrightarrow> push_carry c \<noteq> [] \<and> last (push_carry c) \<noteq> 0)"
proof (induction c rule: push_carry.induct)
  case (1 carry)
  show ?case
  proof (cases "carry > 0")
    case False
    then show ?thesis by (simp add: push_carry.simps base58_digits_def)
  next
    case True
    note ih = 1 [OF True]
    have e: "push_carry carry = (carry mod 58) # push_carry (carry div 58)"
      using True by (subst push_carry.simps) simp
    show ?thesis
    proof (cases "carry div 58 = 0")
      case z: True
      with ih have "push_carry (carry div 58) = []" by simp
      with e True z show ?thesis
        by (auto simp: base58_digits_def)
    next
      case False
      with ih have "push_carry (carry div 58) \<noteq> []" "last (push_carry (carry div 58)) \<noteq> 0"
        and "digits_value (push_carry (carry div 58)) = carry div 58"
        and "base58_digits (push_carry (carry div 58))"
        by simp_all
      with e True show ?thesis
        by (simp add: base58_digits_def)
    qed
  qed
qed

lemma digits_value_append:
  "digits_value (xs @ ys) = digits_value xs + 58 ^ length xs * digits_value ys"
  by (induction xs) (simp_all add: algebra_simps)

lemma base58_digits_append:
  "base58_digits (xs @ ys) = (base58_digits xs \<and> base58_digits ys)"
  by (simp add: base58_digits_def)

lemma add_byte_value:
  "digits_value (add_byte ds b) = unat b + 256 * digits_value ds \<and> base58_digits (add_byte ds b)"
proof -
  obtain es c where r: "carry_digits (unat b) ds = (es, c)"
    by (cases "carry_digits (unat b) ds")
  from carry_digits_value [OF r] push_carry_value [of c] show ?thesis
    by (simp add: add_byte_def r digits_value_append base58_digits_append)
qed

lemma foldl_add_byte_value:
  "digits_value (foldl add_byte ds bs) =
     digits_value ds * 256 ^ length bs + bytes_value bs"
proof (induction bs rule: rev_induct)
  case Nil
  then show ?case by (simp add: bytes_value_def)
next
  case (snoc b bs)
  then show ?case
    by (simp add: add_byte_value bytes_value_def algebra_simps)
qed

lemma foldl_add_byte_digits:
  "base58_digits ds \<Longrightarrow> base58_digits (foldl add_byte ds bs)"
  by (induction bs rule: rev_induct) (simp_all add: add_byte_value)

lemma digits_value_bound: "base58_digits ds \<Longrightarrow> digits_value ds < 58 ^ length ds"
proof (induction ds)
  case Nil
  then show ?case by simp
next
  case (Cons d ds)
  then have "d < 58" and "digits_value ds < 58 ^ length ds"
    by (simp_all add: base58_digits_def)
  then have "d + 58 * digits_value ds < 58 + 58 * digits_value ds"
    and "58 + 58 * digits_value ds \<le> 58 * 58 ^ length ds"
    by simp_all
  then show ?case by simp
qed

lemma digits_value_top_zero:
  assumes "base58_digits ds" and "ds \<noteq> []" and "last ds = 0"
  shows "digits_value ds < 58 ^ (length ds - 1)"
proof -
  from assms(2) have ds: "ds = butlast ds @ [last ds]" by simp
  from assms(1) have b: "base58_digits (butlast ds)"
    by (metis base58_digits_append ds)
  have "digits_value ds = digits_value (butlast ds @ [0])"
    using ds assms(3) by simp
  also have "\<dots> = digits_value (butlast ds)"
    by (simp add: digits_value_append)
  also have "\<dots> < 58 ^ length (butlast ds)"
    using b by (rule digits_value_bound)
  finally show ?thesis by simp
qed

lemma digits_value_top_nonzero:
  assumes "ds \<noteq> []" and "last ds \<noteq> 0"
  shows "58 ^ (length ds - 1) \<le> digits_value ds"
proof -
  from assms(1) have ds: "ds = butlast ds @ [last ds]" by simp
  have "digits_value (butlast ds @ [last ds]) =
      digits_value (butlast ds) + 58 ^ length (butlast ds) * last ds"
    by (simp add: digits_value_append)
  with ds have v: "digits_value ds = digits_value (butlast ds) + 58 ^ (length ds - 1) * last ds"
    by simp
  from assms(2) have "1 \<le> last ds" by simp
  then have "(58::nat) ^ (length ds - 1) * 1 \<le> 58 ^ (length ds - 1) * last ds"
    by (rule mult_le_mono2)
  then have "(58::nat) ^ (length ds - 1) \<le> 58 ^ (length ds - 1) * last ds"
    by simp
  also have "\<dots> \<le> digits_value ds"
    by (subst v) simp
  finally show ?thesis .
qed

lemma add_byte_top_digit:
  assumes "base58_digits ds" and "top_digit_set ds"
  shows "top_digit_set (add_byte ds b)"
proof -
  obtain es c where r: "carry_digits (unat b) ds = (es, c)"
    by (cases "carry_digits (unat b) ds")
  note cv = carry_digits_value [OF r]
  show ?thesis
  proof (cases "c = 0")
    case False
    with push_carry_value [of c] show ?thesis
      by (simp add: add_byte_def r top_digit_set_def)
  next
    case True
    with push_carry_value [of c] have e: "add_byte ds b = es"
      by (simp add: add_byte_def r)
    from assms(2) have ne: "es \<noteq> []"
      using cv by (auto simp: top_digit_set_def)
    from assms(2) have "ds \<noteq> []" and "last ds \<noteq> 0"
      by (simp_all add: top_digit_set_def)
    then have "58 ^ (length ds - 1) \<le> digits_value ds"
      by (rule digits_value_top_nonzero)
    also have "\<dots> \<le> unat b + 256 * digits_value ds" by simp
    also have "\<dots> = digits_value es" using cv True by simp
    finally have "58 ^ (length es - 1) \<le> digits_value es" using cv by simp
    with digits_value_top_zero [of es] cv ne have "last es \<noteq> 0"
      by (metis not_less)
    with ne e show ?thesis by (simp add: top_digit_set_def)
  qed
qed

lemma add_byte_first_nonzero:
  assumes "b \<noteq> 0"
  shows "top_digit_set (add_byte [0] b)"
proof -
  from assms have u: "0 < unat b" by (simp add: unat_gt_0)
  show ?thesis
  proof (cases "unat b div 58 = 0")
    case True
    with push_carry_value [of "unat b div 58"] u show ?thesis
      by (simp add: add_byte_def Let_def top_digit_set_def)
  next
    case False
    with push_carry_value [of "unat b div 58"] show ?thesis
      by (simp add: add_byte_def Let_def top_digit_set_def)
  qed
qed

lemma foldl_add_byte_top_digit:
  assumes "\<exists>b\<in>set bs. b \<noteq> 0"
  shows "top_digit_set (foldl add_byte [0] bs)"
  using assms
proof (induction bs rule: rev_induct)
  case Nil
  then show ?case by simp
next
  case (snoc b bs)
  have d: "base58_digits (foldl add_byte [0] bs)"
    by (rule foldl_add_byte_digits) (simp add: base58_digits_def)
  show ?case
  proof (cases "\<exists>x\<in>set bs. x \<noteq> 0")
    case True
    with snoc.IH have "top_digit_set (foldl add_byte [0] bs)" by simp
    with d show ?thesis by (simp add: add_byte_top_digit)
  next
    case False
    then have "bs = replicate (length bs) 0"
      by (simp add: replicate_length_same)
    then have "foldl add_byte [0] bs = [0]"
      by (metis foldl_add_byte_zeros)
    moreover from False snoc.prems have "b \<noteq> 0" by auto
    ultimately show ?thesis by (simp add: add_byte_first_nonzero)
  qed
qed

lemma alphabet_index_all:
  "list_all (\<lambda>d. index_of (ALPHABET ! d) ALPHABET = Some d) [0..<58]"
  by code_simp

lemma alphabet_index: "d < 58 \<Longrightarrow> index_of (ALPHABET ! d) ALPHABET = Some d"
  using alphabet_index_all by (simp add: list_all_iff)

lemma alphabet_zero_digit_all:
  "list_all (\<lambda>d. ALPHABET ! d \<noteq> ALPHABET ! 0) [1..<58]"
  by code_simp

lemma alphabet_zero_digit: "0 < d \<Longrightarrow> d < 58 \<Longrightarrow> ALPHABET ! d \<noteq> ALPHABET ! 0"
  using alphabet_zero_digit_all by (simp add: list_all_iff)

lemma digits_of_encoded:
  "base58_digits ds \<Longrightarrow> digits_of (map (\<lambda>d. ALPHABET ! d) ds) = Some ds"
  by (induction ds) (simp_all add: base58_digits_def alphabet_index)

lemma decode_value_rev:
  "foldl (\<lambda>acc d. acc * 58 + d) 0 (rev ds) = digits_value ds"
  by (induction ds) simp_all

lemma bytes_value_zero: "bytes_value bs = 0 \<longleftrightarrow> (\<forall>b\<in>set bs. b = 0)"
proof (induction bs rule: rev_induct)
  case Nil
  then show ?case by (simp add: bytes_value_def)
next
  case (snoc b bs)
  have "bytes_value (bs @ [b]) = bytes_value bs * 256 + unat b"
    by (simp add: bytes_value_def)
  with snoc show ?case
    by (auto simp: unat_eq_0)
qed

lemma be_bytes_bytes_value:
  "be_bytes (bytes_value bs) = dropWhile (\<lambda>b. b = 0) bs"
proof (induction bs rule: rev_induct)
  case Nil
  then show ?case by (simp add: bytes_value_def be_bytes.simps)
next
  case (snoc b bs)
  have v: "bytes_value (bs @ [b]) = bytes_value bs * 256 + unat b"
    by (simp add: bytes_value_def)
  have lt: "unat b < 256"
    using unsigned_less [of b, where ?'a = nat] by simp
  show ?case
  proof (cases "bytes_value (bs @ [b]) = 0")
    case True
    then have "\<forall>x\<in>set (bs @ [b]). x = 0"
      by (simp only: bytes_value_zero)
    then have "dropWhile (\<lambda>b. b = 0) (bs @ [b]) = []"
      by simp
    with True show ?thesis by (simp add: be_bytes.simps)
  next
    case False
    have dv: "(bytes_value bs * 256 + unat b) div 256 = bytes_value bs"
      using lt by simp
    have md: "(bytes_value bs * 256 + unat b) mod 256 = unat b"
      using lt by simp
    from False lt have "be_bytes (bytes_value (bs @ [b])) =
        be_bytes (bytes_value bs) @ [of_nat (unat b)]"
      by (subst be_bytes.simps) (simp add: v dv)
    then have e: "be_bytes (bytes_value (bs @ [b])) = dropWhile (\<lambda>b. b = 0) bs @ [b]"
      by (simp add: snoc.IH)
    show ?thesis
    proof (cases "\<forall>x\<in>set bs. x = 0")
      case True
      then have z: "bytes_value bs = 0" by (simp only: bytes_value_zero)
      with False v have "b \<noteq> 0" by (auto simp: unat_eq_0)
      moreover from True have "dropWhile (\<lambda>b. b = 0) bs = []"
        by simp
      moreover from True have "dropWhile (\<lambda>b. b = 0) (bs @ [b]) = dropWhile (\<lambda>b. b = 0) [b]"
        by (intro dropWhile_append2) simp
      ultimately show ?thesis using e by simp
    next
      case False
      then obtain x where "x \<in> set bs" and "x \<noteq> 0" by auto
      then have "dropWhile (\<lambda>b. b = 0) (bs @ [b]) = dropWhile (\<lambda>b. b = 0) bs @ [b]"
        by (intro dropWhile_append1) simp_all
      with e show ?thesis by simp
    qed
  qed
qed

lemma takeWhile_zero_bytes:
  "replicate (length (takeWhile (\<lambda>b. b = 0) bs)) 0 = takeWhile (\<lambda>b. b = (0::byte)) bs"
  by (induction bs) simp_all

lemma takeWhile_replicate_stop:
  "x \<noteq> c \<Longrightarrow> takeWhile (\<lambda>y. y = c) (replicate n c @ x # xs) = replicate n c"
  by (induction n) simp_all

lemma dropWhile_replicate_stop:
  "x \<noteq> c \<Longrightarrow> dropWhile (\<lambda>y. y = c) (replicate n c @ x # xs) = x # xs"
  by (induction n) simp_all

lemma toBase58_shape:
  assumes "\<exists>b\<in>set bytes. b \<noteq> 0"
  shows "\<exists>x xs. x \<noteq> ALPHABET ! 0 \<and>
           map (\<lambda>d. ALPHABET ! d) (rev (foldl add_byte [0] bytes)) = x # xs \<and>
           toBase58 bytes =
             replicate (length (takeWhile (\<lambda>b. b = 0) bytes)) (ALPHABET ! 0) @ x # xs"
proof -
  let ?ds = "foldl add_byte [0] bytes"
  have b: "base58_digits ?ds"
    by (rule foldl_add_byte_digits) (simp add: base58_digits_def)
  from foldl_add_byte_top_digit [OF assms] have ne: "?ds \<noteq> []" and top: "last ?ds \<noteq> 0"
    by (simp_all add: top_digit_set_def)
  from b ne have "last ?ds < 58"
    by (simp add: base58_digits_def list_all_iff)
  with top have h: "ALPHABET ! last ?ds \<noteq> ALPHABET ! 0"
    by (simp add: alphabet_zero_digit)
  define r where "r = rev (butlast ?ds)"
  from ne have "rev ?ds = rev (butlast ?ds @ [last ?ds])"
    by simp
  then have r: "rev ?ds = last ?ds # r"
    by (simp only: rev_append rev.simps append.simps r_def)
  have enc: "map (\<lambda>d. ALPHABET ! d) (rev ?ds) = (ALPHABET ! last ?ds) # map (\<lambda>d. ALPHABET ! d) r"
    by (simp only: r list.map)
  have lz: "leading_zeros bytes =
      replicate (length (takeWhile (\<lambda>b. b = 0) bytes)) (ALPHABET ! 0)"
    by (simp only: leading_zeros_def map_replicate_const)
  have "toBase58 bytes = leading_zeros bytes @ map (\<lambda>d. ALPHABET ! d) (rev ?ds)"
    by (simp only: toBase58_def Let_def)
  then have str: "toBase58 bytes =
      replicate (length (takeWhile (\<lambda>b. b = 0) bytes)) (ALPHABET ! 0) @
      (ALPHABET ! last ?ds) # map (\<lambda>d. ALPHABET ! d) r"
    by (simp only: enc lz)
  from h enc str show ?thesis
    by (intro exI [of _ "ALPHABET ! last ?ds"] exI [of _ "map (\<lambda>d. ALPHABET ! d) r"] conjI)
qed

lemma toBase58_roundtrip_nonzero:
  assumes "\<exists>b\<in>set bytes. b \<noteq> 0"
  shows "fromBase58 (toBase58 bytes) = Some bytes"
proof -
  let ?ds = "foldl add_byte [0] bytes"
  let ?z = "takeWhile (\<lambda>b. b = 0) bytes"
  from toBase58_shape [OF assms] obtain x xs where x: "x \<noteq> ALPHABET ! 0"
    and enc: "map (\<lambda>d. ALPHABET ! d) (rev ?ds) = x # xs"
    and str: "toBase58 bytes = replicate (length ?z) (ALPHABET ! 0) @ x # xs"
    by (elim exE conjE)
  have b: "base58_digits (rev ?ds)"
    using foldl_add_byte_digits [of "[0]" bytes] by (simp add: base58_digits_def)
  have t: "takeWhile (\<lambda>c. c = ALPHABET ! 0) (toBase58 bytes) = replicate (length ?z) (ALPHABET ! 0)"
    unfolding str using x by (rule takeWhile_replicate_stop)
  have "dropWhile (\<lambda>c. c = ALPHABET ! 0) (toBase58 bytes) = x # xs"
    unfolding str using x by (rule dropWhile_replicate_stop)
  with enc have d: "dropWhile (\<lambda>c. c = ALPHABET ! 0) (toBase58 bytes) =
      map (\<lambda>d. ALPHABET ! d) (rev ?ds)"
    by simp
  have v: "foldl (\<lambda>acc d. acc * 58 + d) 0 (rev ?ds) = bytes_value bytes"
    by (simp add: decode_value_rev foldl_add_byte_value)
  have "fromBase58 (toBase58 bytes) =
      Some (replicate (length ?z) 0 @ be_bytes (bytes_value bytes))"
    by (simp only: fromBase58_def Let_def t d digits_of_encoded [OF b] option.case v
        length_replicate)
  also have "\<dots> = Some (?z @ dropWhile (\<lambda>b. b = 0) bytes)"
    by (simp only: be_bytes_bytes_value takeWhile_zero_bytes)
  finally show ?thesis by simp
qed

lemma toBase58_roundtrip_all_ff: "fromBase58 (toBase58 (replicate 32 255)) = Some (replicate 32 255)"
  by (rule toBase58_roundtrip_nonzero) simp

section \<open>ChangeDetector: results\<close>

lemma map_get_map_set: "map_get (map_set k v m) k' = (if k' = k then Some v else map_get m k')"
  by (induction m) (auto simp: map_get_def)

lemma keys_map_set: "set (map fst (map_set k v m)) = insert k (set (map fst m))"
  by (induction m) auto

lemma distinct_map_set: "distinct (map fst m) \<Longrightarrow> distinct (map fst (map_set k v m))"
proof (induction m)
  case Nil
  then show ?case by simp
next
  case (Cons p ps)
  then show ?case
    using keys_map_set [of k v ps] by auto
qed

lemma map_get_group_updates:
  "map_get (group_updates us g) pid =
     (if filter (\<lambda>b. b_programId b = pid) us = [] then map_get g pid
      else Some ((case map_get g pid of None \<Rightarrow> [] | Some e \<Rightarrow> e) @
                 filter (\<lambda>b. b_programId b = pid) us))"
proof (induction us arbitrary: g)
  case Nil
  then show ?case by simp
next
  case (Cons u us)
  show ?case
    by (simp add: Cons.IH map_get_map_set Let_def split: option.splits)
qed

lemma distinct_group_updates:
  "distinct (map fst g) \<Longrightarrow> distinct (map fst (group_updates us g))"
  by (induction us arbitrary: g) (simp_all add: distinct_map_set Let_def)

lemma group_updates_member:
  assumes "(pid, ups) \<in> set (group_updates us [])"
  shows "ups = filter (\<lambda>b. b_programId b = pid) us \<and> ups \<noteq> []"
proof -
  have d: "distinct (map fst (group_updates us []))"
    by (rule distinct_group_updates) simp
  with assms have "map_of (group_updates us []) pid = Some ups"
    by simp
  then have "map_get (group_updates us []) pid = Some ups"
    by (simp add: map_get_def)
  moreover have "map_get ([] :: (string, BufferedUpdate list) js_map) pid = None"
    by (simp add: map_get_def)
  ultimately show ?thesis
    by (simp add: map_get_group_updates split: if_splits)
qed

lemma group_updates_has:
  assumes "u \<in> set us"
  shows "(b_programId u, filter (\<lambda>b. b_programId b = b_programId u) us) \<in> set (group_updates us [])"
proof -
  from assms have "filter (\<lambda>b. b_programId b = b_programId u) us \<noteq> []"
    by (auto simp: filter_empty_conv)
  moreover have "map_get ([] :: (string, BufferedUpdate list) js_map) (b_programId u) = None"
    by (simp add: map_get_def)
  ultimately have "map_get (group_updates us []) (b_programId u) =
      Some (filter (\<lambda>b. b_programId b = b_programId u) us)"
    by (simp add: map_get_group_updates)
  then show ?thesis
    by (simp add: map_get_def map_of_SomeD)
qed

lemma batch_process_groups:
  "batch (snd (process_groups sha db arr st groups states)) =
     (if outcome (snd (process_groups sha db arr st groups states)) = LookupFailed then []
      else states @ concat (map (rows_of db) groups))"
proof (induction groups arbitrary: arr st states)
  case Nil
  then show ?case by (simp add: Let_def split: option.splits)
next
  case (Cons g groups)
  obtain pid ups where g: "g = (pid, ups)" by (cases g)
  show ?case
    by (simp add: g Let_def Cons.IH split: sum.splits)
qed

lemma effects_process_groups:
  "snd (process_groups sha db arr st groups states) =
   snd (process_groups sha' db arr' st' groups states)"
proof (induction groups arbitrary: arr st arr' st' states)
  case Nil
  then show ?case by (simp add: Let_def split: option.splits)
next
  case (Cons g groups)
  obtain pid ups where g: "g = (pid, ups)" by (cases g)
  show ?case
    by (simp add: g Let_def split: sum.splits) (use Cons.IH in blast)
qed

lemma s_pubkey_to_state: "s_pubkey (to_state b) = b_pubkey b"
  by (simp add: to_state_def)

lemma filter_detect_changes:
  "filter (\<lambda>r. s_pubkey r = pk) (detect_changes m ups) =
   detect_changes m (filter (\<lambda>b. b_pubkey b = pk) ups)"
  by (induction ups) (auto simp: s_pubkey_to_state split: option.splits)

lemma keyed_pubkeys: "keyed_by_pubkey buf \<Longrightarrow> map b_pubkey (map_values buf) = map fst buf"
  by (induction buf) (auto simp: keyed_by_pubkey_def map_values_def)

lemma keyed_distinct: "keyed_by_pubkey buf \<Longrightarrow> distinct (map b_pubkey (map_values buf))"
  by (simp add: keyed_pubkeys) (simp add: keyed_by_pubkey_def)

lemma keyed_get:
  assumes "keyed_by_pubkey buf" and "map_get buf pk = Some u"
  shows "u \<in> set (map_values buf) \<and> b_pubkey u = pk"
proof -
  from assms(2) have m: "(pk, u) \<in> set buf"
    by (simp add: map_get_def map_of_SomeD)
  then have "u \<in> set (map_values buf)"
    by (force simp: map_values_def)
  moreover from assms(1) m have "b_pubkey u = pk"
    by (auto simp: keyed_by_pubkey_def list_all_iff)
  ultimately show ?thesis by simp
qed

lemma filter_key_single:
  "distinct (map f xs) \<Longrightarrow> x \<in> set xs \<Longrightarrow> filter (\<lambda>y. f y = f x) xs = [x]"
proof (induction xs)
  case Nil
  then show ?case by simp
next
  case (Cons a xs)
  show ?case
  proof (cases "a = x")
    case True
    with Cons.prems have "f x \<notin> f ` set xs" by simp
    then have "\<forall>y\<in>set xs. f y \<noteq> f x" by (metis imageI)
    then have "filter (\<lambda>y. f y = f x) xs = []" by (simp add: filter_empty_conv)
    with True show ?thesis by simp
  next
    case False
    with Cons.prems have "x \<in> set xs" and "f a \<noteq> f x" by auto
    with Cons show ?thesis by simp
  qed
qed

lemma concat_single_group:
  assumes "distinct (map fst gs)" and "(P, ups) \<in> set gs"
    and "\<And>g. g \<in> set gs \<Longrightarrow> fst g \<noteq> P \<Longrightarrow> F g = []"
  shows "concat (map F gs) = F (P, ups)"
  using assms
proof (induction gs)
  case Nil
  then show ?case by simp
next
  case (Cons g gs)
  show ?case
  proof (cases "g = (P, ups)")
    case True
    with Cons.prems(1) have "\<forall>h\<in>set gs. fst h \<noteq> P" by force
    with Cons.prems(3) have "\<forall>h\<in>set gs. F h = []" by simp
    then have "concat (map F gs) = []" by simp
    with True show ?thesis by simp
  next
    case False
    with Cons.prems have in_gs: "(P, ups) \<in> set gs" by simp
    then have "P \<in> fst ` set gs" by force
    with Cons.prems(1) have "fst g \<noteq> P" by auto
    with Cons.prems(3) have "F g = []" by simp
    moreover have "concat (map F gs) = F (P, ups)"
      using Cons.IH Cons.prems in_gs by simp
    ultimately show ?thesis by simp
  qed
qed

lemma rows_for_pubkey:
  assumes k: "keyed_by_pubkey (buffer st)" and g: "map_get (buffer st) pk = Some u"
  shows "filter (\<lambda>r. s_pubkey r = pk)
           (concat (map (rows_of db) (group_updates (map_values (buffer st)) []))) =
         (case getLatestHashes db (b_programId u) (map b_pubkey (program_updates st (b_programId u))) of
            Inl e \<Rightarrow> []
          | Inr existingHashes \<Rightarrow> detect_changes existingHashes [u])"
proof -
  let ?snap = "map_values (buffer st)"
  let ?gs = "group_updates ?snap []"
  let ?F = "\<lambda>g. filter (\<lambda>r. s_pubkey r = pk) (rows_of db g)"
  from keyed_get [OF k g] have u_in: "u \<in> set ?snap" and u_pk: "b_pubkey u = pk" by simp_all
  have single: "filter (\<lambda>b. b_pubkey b = pk) ?snap = [u]"
    using filter_key_single [OF keyed_distinct [OF k] u_in] u_pk by simp
  have sub: "filter (\<lambda>b. b_pubkey b = pk) (filter (\<lambda>b. b_programId b = pid) ?snap) =
      (if b_programId u = pid then [u] else [])" for pid
  proof -
    have "filter (\<lambda>b. b_pubkey b = pk) (filter (\<lambda>b. b_programId b = pid) ?snap) =
        filter (\<lambda>b. b_programId b = pid) (filter (\<lambda>b. b_pubkey b = pk) ?snap)"
      by (simp add: conj_commute)
    then show ?thesis by (simp add: single)
  qed
  have d: "distinct (map fst ?gs)"
    by (rule distinct_group_updates) simp
  have mem: "(b_programId u, program_updates st (b_programId u)) \<in> set ?gs"
    using group_updates_has [OF u_in] by (simp add: program_updates_def)
  have other: "?F h = []" if "h \<in> set ?gs" and "fst h \<noteq> b_programId u" for h
  proof -
    obtain pid ups where h: "h = (pid, ups)" by (cases h)
    with that(1) have ups: "ups = filter (\<lambda>b. b_programId b = pid) ?snap"
      using group_updates_member by blast
    from h that(2) have "b_programId u \<noteq> pid" by auto
    with sub [of pid] ups have "filter (\<lambda>b. b_pubkey b = pk) ups = []" by simp
    then show ?thesis
      by (simp add: h filter_detect_changes split: sum.splits)
  qed
  have "concat (map ?F ?gs) = ?F (b_programId u, program_updates st (b_programId u))"
    by (rule concat_single_group [OF d mem other])
  moreover have "filter (\<lambda>r. s_pubkey r = pk) (concat (map (rows_of db) ?gs)) = concat (map ?F ?gs)"
    by (simp add: filter_concat comp_def)
  moreover have "filter (\<lambda>b. b_pubkey b = pk) (program_updates st (b_programId u)) = [u]"
    using sub [of "b_programId u"] by (simp add: program_updates_def)
  ultimately show ?thesis
    by (simp add: filter_detect_changes split: sum.splits)
qed

lemma process_groups_not_skipped:
  "outcome (snd (process_groups sha db arr st groups states)) \<noteq> Skipped"
proof (induction groups arbitrary: arr st states)
  case Nil
  then show ?case by (simp add: Let_def split: option.splits)
next
  case (Cons g groups)
  obtain pid ups where g: "g = (pid, ups)" by (cases g)
  show ?case
    by (simp add: g Let_def Cons.IH split: sum.splits)
qed

lemma batch_processBuffer:
  "batch (snd (processBuffer sha db arrivals st)) =
     (if outcome (snd (processBuffer sha db arrivals st)) \<in> {Skipped, LookupFailed} then []
      else concat (map (rows_of db) (group_updates (map_values (buffer st)) [])))"
proof (cases "isProcessing st \<or> length (buffer st) = 0")
  case True
  then show ?thesis by (auto simp add: processBuffer_def)
next
  case False
  let ?r = "process_groups sha db arrivals (st\<lparr>isProcessing := True\<rparr>)
      (group_updates (map_values (buffer st)) []) []"
  from False have b: "batch (snd (processBuffer sha db arrivals st)) = batch (snd ?r)"
    and o: "outcome (snd (processBuffer sha db arrivals st)) = outcome (snd ?r)"
    by (simp_all add: processBuffer_def Let_def split: prod.splits)
  have ns: "outcome (snd ?r) \<noteq> Skipped"
    by (rule process_groups_not_skipped)
  show ?thesis
    unfolding b o using batch_process_groups [of sha db arrivals "st\<lparr>isProcessing := True\<rparr>" "group_updates (map_values (buffer st)) []" "[]"] ns
    by auto
qed

lemma keyed_map_set:
  "keyed_by_pubkey buf \<Longrightarrow> b_pubkey b = k \<Longrightarrow> keyed_by_pubkey (map_set k b buf)"
proof -
  assume k: "keyed_by_pubkey buf" and b: "b_pubkey b = k"
  have "list_all (\<lambda>p. b_pubkey (snd p) = fst p) buf \<Longrightarrow>
      list_all (\<lambda>p. b_pubkey (snd p) = fst p) (map_set k b buf)"
    by (induction buf) (auto simp: b)
  with k show ?thesis
    by (simp add: keyed_by_pubkey_def distinct_map_set)
qed

lemma keyed_addUpdate:
  "keyed_by_pubkey (buffer st) \<Longrightarrow> keyed_by_pubkey (buffer (addUpdate sha st u))"
  by (simp add: addUpdate_def keyed_map_set to_buffered_def)

lemma keyed_foldl_addUpdate:
  "keyed_by_pubkey (buffer st) \<Longrightarrow> keyed_by_pubkey (buffer (foldl (addUpdate sha) st us))"
  by (induction us arbitrary: st) (simp_all add: keyed_addUpdate)

lemma keyed_new: "keyed_by_pubkey (buffer new_ChangeProcessor)"
  by (simp add: keyed_by_pubkey_def new_ChangeProcessor_def)

lemma buffer_addUpdate:
  "map_get (buffer (addUpdate sha st u)) pk =
     (if pk = u_pubkey u then Some (to_buffered sha u) else map_get (buffer st) pk)"
  by (simp add: addUpdate_def map_get_map_set)

lemma buffer_foldl_addUpdate:
  "map_get (buffer (foldl (addUpdate sha) st us)) pk =
     (if filter (\<lambda>u. u_pubkey u = pk) us = [] then map_get (buffer st) pk
      else Some (to_buffered sha (last (filter (\<lambda>u. u_pubkey u = pk) us))))"
proof (induction us arbitrary: st)
  case Nil
  then show ?case by simp
next
  case (Cons u us)
  show ?case
    by (simp add: Cons.IH buffer_addUpdate)
qed

lemma isProcessing_foldl_addUpdate:
  "isProcessing (foldl (addUpdate sha) st us) = isProcessing st"
  by (induction us arbitrary: st) (simp_all add: addUpdate_def)

text \<open>
  Claim C4. A buffered update whose pubkey is missing from the hash lookup of its program
  yields no row in the batch of the flush, whatever was delivered for that pubkey before
  (the buffer is any buffer \<open>addUpdate\<close> can build) or arrives during the flush.
\<close>

theorem no_baseline_no_row:
  assumes "keyed_by_pubkey (buffer st)"
    and "map_get (buffer st) pk = Some u"
    and "getLatestHashes db (b_programId u) (map b_pubkey (program_updates st (b_programId u))) =
           Inr existingHashes"
    and "map_get existingHashes pk = None"
  shows "filter (\<lambda>r. s_pubkey r = pk) (batch (snd (processBuffer sha db arrivals st))) = []"
proof -
  from keyed_get [OF assms(1,2)] have "b_pubkey u = pk" by simp
  with assms(3,4) have "filter (\<lambda>r. s_pubkey r = pk)
      (concat (map (rows_of db) (group_updates (map_values (buffer st)) []))) = []"
    by (simp add: rows_for_pubkey [OF assms(1,2)])
  then show ?thesis
    by (simp add: batch_processBuffer)
qed

text \<open>
  Updates delivered while no flush is in flight. When a sequence of updates that contains
  updates for \<open>pk\<close> has gone into the buffer and a flush then starts, and its lookups
  succeed, the flush hands over at most one row for \<open>pk\<close>, fixed by the last update
  \<open>u\<close> for \<open>pk\<close> alone: none when the stored hash is the digest of \<open>u\<close>'s data (or
  when there is no stored hash, or an empty one, which the code skips), and otherwise the
  one row of \<open>u\<close>, with \<open>delete\<close> for zero lamports or empty data and \<open>update\<close>
  otherwise, and with the digest of \<open>u\<close>'s data. Updates that arrive during a flush are
  not covered by this lemma.
\<close>

lemma last_update_decides_row:
  assumes "keyed_by_pubkey (buffer st0)"
    and "filter (\<lambda>u. u_pubkey u = pk) updates \<noteq> []"
    and "u = last (filter (\<lambda>u. u_pubkey u = pk) updates)"
    and "st = foldl (addUpdate sha) st0 updates"
    and "outcome (snd (processBuffer sha db arrivals st)) \<notin> {Skipped, LookupFailed}"
    and "getLatestHashes db (u_owner u) (map b_pubkey (program_updates st (u_owner u))) =
           Inr existingHashes"
  shows "filter (\<lambda>r. s_pubkey r = pk) (batch (snd (processBuffer sha db arrivals st))) =
           (case map_get existingHashes pk of
              None \<Rightarrow> []
            | Some h \<Rightarrow>
                if h = [] \<or> h = sha (u_data u) then []
                else [to_state (to_buffered sha u)]) \<and>
         s_change_type (to_state (to_buffered sha u)) =
           (if u_lamports u = 0 \<or> u_data u = [] then Delete else Update) \<and>
         s_data_hash (to_state (to_buffered sha u)) = sha (u_data u) \<and>
         s_pubkey (to_state (to_buffered sha u)) = pk"
proof -
  let ?b = "to_buffered sha u"
  have k: "keyed_by_pubkey (buffer st)"
    using assms(1,4) by (simp add: keyed_foldl_addUpdate)
  have g: "map_get (buffer st) pk = Some ?b"
    using assms(2,3,4) by (simp add: buffer_foldl_addUpdate)
  have pid: "b_programId ?b = u_owner u" and h: "b_dataHash ?b = sha (u_data u)"
    and pk: "b_pubkey ?b = pk"
    using keyed_get [OF k g] by (simp_all add: to_buffered_def)
  have "filter (\<lambda>r. s_pubkey r = pk) (batch (snd (processBuffer sha db arrivals st))) =
      filter (\<lambda>r. s_pubkey r = pk)
        (concat (map (rows_of db) (group_updates (map_values (buffer st)) [])))"
    using assms(5) by (simp add: batch_processBuffer)
  also have "\<dots> = detect_changes existingHashes [?b]"
    using assms(6) by (simp add: rows_for_pubkey [OF k g] pid)
  also have "\<dots> = (case map_get existingHashes pk of
              None \<Rightarrow> []
            | Some h \<Rightarrow>
                if h = [] \<or> h = sha (u_data u) then []
                else [to_state ?b])"
    by (auto simp: pk h split: option.splits)
  finally show ?thesis
    using pk by (simp add: to_state_def to_buffered_def)
qed

lemma process_groups_failed_buffer:
  "outcome (snd (process_groups sha db [] st groups states)) \<in> {LookupFailed, InsertFailed} \<Longrightarrow>
   buffer (fst (process_groups sha db [] st groups states)) = buffer st"
proof (induction groups arbitrary: st states)
  case Nil
  then show ?case by (simp add: Let_def deliver_def split: option.splits if_splits)
next
  case (Cons g groups)
  obtain pid ups where g: "g = (pid, ups)" by (cases g)
  show ?case
  proof (cases "getLatestHashes db pid (map b_pubkey ups)")
    case (Inl e)
    then show ?thesis by (simp add: g Let_def deliver_def)
  next
    case (Inr m)
    with Cons.prems have "outcome (snd (process_groups sha db []
        (st\<lparr>changesDetected := changesDetected st + length (detect_changes m ups)\<rparr>)
        groups (states @ detect_changes m ups))) \<in> {LookupFailed, InsertFailed}"
      by (simp add: g Let_def deliver_def)
    from Cons.IH [OF this] Inr show ?thesis
      by (simp add: g Let_def deliver_def)
  qed
qed

lemma process_groups_insert_failed:
  "outcome (snd (process_groups sha db arr st groups states)) = InsertFailed \<longleftrightarrow>
   batch (snd (process_groups sha db arr st groups states)) \<noteq> [] \<and>
   insert_account_state db (batch (snd (process_groups sha db arr st groups states))) \<noteq> None"
proof (induction groups arbitrary: arr st states)
  case Nil
  then show ?case by (auto simp add: Let_def insertAccountStates_def split: option.splits)
next
  case (Cons g groups)
  obtain pid ups where g: "g = (pid, ups)" by (cases g)
  show ?case
    by (simp add: g Let_def Cons.IH split: sum.splits)
qed

lemma process_groups_thrown:
  "outcome (snd (process_groups sha db arr st groups states)) = InsertFailed \<Longrightarrow>
   thrown (snd (process_groups sha db arr st groups states)) =
     insert_account_state db (batch (snd (process_groups sha db arr st groups states)))"
proof (induction groups arbitrary: arr st states)
  case Nil
  then show ?case
    by (auto simp add: Let_def insertAccountStates_def split: option.splits if_splits)
next
  case (Cons g groups)
  obtain pid ups where g: "g = (pid, ups)" by (cases g)
  show ?case
  proof (cases "getLatestHashes db pid (map b_pubkey ups)")
    case (Inl e)
    with Cons.prems show ?thesis by (simp add: g Let_def)
  next
    case (Inr m)
    with Cons.prems Cons.IH show ?thesis
      by (simp add: g Let_def)
  qed
qed

lemma processBuffer_run:
  assumes "\<not> (isProcessing st \<or> length (buffer st) = 0)"
  shows "processBuffer sha db arr st =
     (let r = process_groups sha db arr (st\<lparr>isProcessing := True\<rparr>)
                (group_updates (map_values (buffer st)) []) []
      in ((fst r)\<lparr>isProcessing := False\<rparr>,
          (snd r)\<lparr>logged := thrown (snd r), thrown := None\<rparr>))"
  using assms by (simp add: processBuffer_def Let_def case_prod_beta)

lemma processBuffer_effects_cong:
  assumes "buffer a = buffer b" and "isProcessing a = isProcessing b"
  shows "snd (processBuffer sha db arr a) = snd (processBuffer sha' db arr' b)"
proof (cases "isProcessing a \<or> length (buffer a) = 0")
  case True
  with assms show ?thesis by (auto simp: processBuffer_def)
next
  case False
  have "snd (process_groups sha db arr (a\<lparr>isProcessing := True\<rparr>)
        (group_updates (map_values (buffer b)) []) []) =
      snd (process_groups sha' db arr' (b\<lparr>isProcessing := True\<rparr>)
        (group_updates (map_values (buffer b)) []) [])"
    by (rule effects_process_groups)
  with False assms show ?thesis
    by (simp add: processBuffer_run Let_def)
qed

text \<open>
  Claim C3. When the insert of the batch fails, the flush ends with the buffer it started
  with, the error is logged by the \<open>catch\<close> and does not leave the call, the guard of
  the next timer tick is open again, and that next flush does exactly the same.
\<close>

theorem failed_insert_keeps_buffer:
  assumes "processBuffer sha db [] st = (st', eff)"
    and "batch eff \<noteq> []"
    and "insert_account_state db (batch eff) = Some e"
  shows "outcome eff = InsertFailed \<and> buffer st' = buffer st \<and>
         thrown eff = None \<and> logged eff = Some e \<and>
         \<not> isProcessing st' \<and> length (buffer st') \<noteq> 0 \<and>
         snd (processBuffer sha db [] st') = eff"
proof -
  let ?st1 = "st\<lparr>isProcessing := True\<rparr>"
  let ?gs = "group_updates (map_values (buffer st)) []"
  let ?r = "process_groups sha db [] ?st1 ?gs []"
  have run: "\<not> (isProcessing st \<or> length (buffer st) = 0)"
    using assms(1,2) by (auto simp: processBuffer_def)
  then have st': "st' = (fst ?r)\<lparr>isProcessing := False\<rparr>"
    and eff: "eff = (snd ?r)\<lparr>logged := thrown (snd ?r), thrown := None\<rparr>"
    using assms(1) by (simp_all add: processBuffer_run Let_def)
  from eff have b: "batch eff = batch (snd ?r)" and o: "outcome eff = outcome (snd ?r)"
    by simp_all
  have failed: "outcome (snd ?r) = InsertFailed"
    using assms(2,3) by (simp add: process_groups_insert_failed b)
  then have "buffer (fst ?r) = buffer ?st1"
    by (intro process_groups_failed_buffer) simp
  then have buf: "buffer st' = buffer st"
    by (simp add: st')
  have "thrown (snd ?r) = Some e"
    using process_groups_thrown [of sha db "[]" ?st1 ?gs "[]"] failed assms(3) b by simp
  then have l: "logged eff = Some e" and t: "thrown eff = None"
    by (simp_all add: eff)
  have np: "\<not> isProcessing st'" by (simp add: st')
  with run have "isProcessing st' = isProcessing st" by simp
  from processBuffer_effects_cong [OF buf this, of sha db "[]" sha "[]"] assms(1)
  have "snd (processBuffer sha db [] st') = eff" by simp
  with failed o buf l t np run show ?thesis by simp
qed

lemmas demo_simps = demo_update_def demo_store_def failing_store_def new_ChangeProcessor_def
  addUpdate_def to_buffered_def processBuffer_def map_values_def map_keys_def map_get_def
  getLatestHashes_def insertAccountStates_def deliver_def Let_def

text \<open>
  Claim C2. An update delivered while a flush waits for the Store is lost: it reaches the
  buffer after the snapshot was taken, and \<open>this.buffer.clear()\<close> at the end of the
  flush removes it with the rest. Here the snapshot holds \<open>A\<close> only, the update for
  \<open>B\<close> arrives during the lookup, the flush ends normally with an empty buffer and
  no row for \<open>B\<close>, and the next flush finds nothing to do.
\<close>

theorem update_during_flush_is_lost:
  "map_keys (buffer (addUpdate sha new_ChangeProcessor (demo_update ''A'' 1 [1]))) = [''A''] \<and>
   buffer (fst (flush_with_arrival sha)) = [] \<and>
   thrown (snd (flush_with_arrival sha)) = None \<and>
   logged (snd (flush_with_arrival sha)) = None \<and>
   filter (\<lambda>r. s_pubkey r = ''B'') (batch (snd (flush_with_arrival sha))) = [] \<and>
   outcome (snd (processBuffer sha demo_store [] (fst (flush_with_arrival sha)))) = Skipped"
  by (simp add: flush_with_arrival_def demo_simps to_state_def)

text \<open>
  Claim C5. A sequence of updates to one pubkey that is delivered while a flush waits for
  the Store yields no row at all, although the stored hash differs from the digest of its
  last update. The buffer holds an update for \<open>A\<close>; during the lookup of the flush two
  updates for \<open>B\<close> arrive, so three updates have been received. The flush hands over no
  row for \<open>B\<close> and ends with an empty buffer, and the next flush is skipped with an
  empty batch. The stored hash of \<open>B\<close> is not the digest of its last update: the same two
  updates, delivered while no flush is in flight, give the one row of the last update.
\<close>

theorem sequence_during_flush_yields_no_row:
  "updatesReceived (fst (flush_with_sequence sha)) = 3 \<and>
   filter (\<lambda>r. s_pubkey r = ''B'') (batch (snd (flush_with_sequence sha))) = [] \<and>
   thrown (snd (flush_with_sequence sha)) = None \<and>
   logged (snd (flush_with_sequence sha)) = None \<and>
   buffer (fst (flush_with_sequence sha)) = [] \<and>
   snd (processBuffer sha (stale_store sha) [] (fst (flush_with_sequence sha))) =
     \<lparr>outcome = Skipped, batch = [], logged = None, thrown = None\<rparr> \<and>
   getLatestHashes (stale_store sha) ''P'' [''B''] = Inr [(''B'', sha [2] @ ''x'')] \<and>
   b_dataHash (to_buffered sha (demo_update ''B'' 1 [2])) = sha [2] \<and>
   sha [2] @ ''x'' \<noteq> sha [2] \<and>
   batch (snd (processBuffer sha (stale_store sha) []
     (foldl (addUpdate sha) new_ChangeProcessor
        [demo_update ''B'' 1 [1], demo_update ''B'' 1 [2]]))) =
     [to_state (to_buffered sha (demo_update ''B'' 1 [2]))]"
  by (simp add: flush_with_sequence_def stale_store_def demo_simps to_state_def)

theorem no_baseline_no_row_witness:
  "map_get (buffer (foldl (addUpdate to_hex) new_ChangeProcessor
       [demo_update ''N'' 1 [1], demo_update ''A'' 1 [1], demo_update ''N'' 0 [2]])) ''N'' =
     Some (to_buffered to_hex (demo_update ''N'' 0 [2])) \<and>
   filter (\<lambda>r. s_pubkey r = ''N'')
     (batch (snd (processBuffer to_hex demo_store []
        (foldl (addUpdate to_hex) new_ChangeProcessor
           [demo_update ''N'' 1 [1], demo_update ''A'' 1 [1], demo_update ''N'' 0 [2]])))) = [] \<and>
   batch (snd (processBuffer to_hex demo_store []
        (foldl (addUpdate to_hex) new_ChangeProcessor
           [demo_update ''N'' 1 [1], demo_update ''A'' 1 [1], demo_update ''N'' 0 [2]]))) =
     [to_state (to_buffered to_hex (demo_update ''A'' 1 [1]))]"
proof -
  let ?st = "foldl (addUpdate to_hex) new_ChangeProcessor
       [demo_update ''N'' 1 [1], demo_update ''A'' 1 [1], demo_update ''N'' 0 [2]]"
  let ?u = "to_buffered to_hex (demo_update ''N'' 0 [2])"
  have k: "keyed_by_pubkey (buffer ?st)"
    by (rule keyed_foldl_addUpdate) (rule keyed_new)
  have g: "map_get (buffer ?st) ''N'' = Some ?u"
    by (simp add: demo_simps)
  have l: "getLatestHashes demo_store (b_programId ?u)
      (map b_pubkey (program_updates ?st (b_programId ?u))) = Inr [(''A'', ''aa'')]"
    by (simp add: demo_simps program_updates_def)
  have n: "map_get [(''A'', ''aa'')] ''N'' = None"
    by (simp add: map_get_def)
  have b: "batch (snd (processBuffer to_hex demo_store [] ?st)) =
     [to_state (to_buffered to_hex (demo_update ''A'' 1 [1]))]"
    by (simp add: demo_simps to_hex_def hex_digit_def)
  from no_baseline_no_row [OF k g l n, of to_hex "[]"] g b show ?thesis
    by simp
qed

lemma last_update_decides_row_scenario:
  "filter (\<lambda>r. s_pubkey r = ''A'')
     (batch (snd (processBuffer to_hex demo_store []
        (foldl (addUpdate to_hex) new_ChangeProcessor
           [demo_update ''A'' 1 [1], demo_update ''B'' 1 [170], demo_update ''A'' 0 [2]])))) =
     [to_state (to_buffered to_hex (demo_update ''A'' 0 [2]))] \<and>
   s_change_type (to_state (to_buffered to_hex (demo_update ''A'' 0 [2]))) = Delete \<and>
   s_data_hash (to_state (to_buffered to_hex (demo_update ''A'' 0 [2]))) = ''02'' \<and>
   batch (snd (processBuffer to_hex demo_store []
        (foldl (addUpdate to_hex) new_ChangeProcessor
           [demo_update ''A'' 1 [1], demo_update ''B'' 1 [170], demo_update ''A'' 0 [2]]))) =
     [to_state (to_buffered to_hex (demo_update ''A'' 0 [2]))]"
proof -
  let ?us = "[demo_update ''A'' 1 [1], demo_update ''B'' 1 [170], demo_update ''A'' 0 [2]]"
  let ?st = "foldl (addUpdate to_hex) new_ChangeProcessor ?us"
  let ?u = "demo_update ''A'' 0 [2]"
  have f: "filter (\<lambda>u. u_pubkey u = ''A'') ?us \<noteq> []"
    by (simp add: demo_update_def)
  have u: "?u = last (filter (\<lambda>u. u_pubkey u = ''A'') ?us)"
    by (simp add: demo_update_def)
  have b: "batch (snd (processBuffer to_hex demo_store [] ?st)) =
      [to_state (to_buffered to_hex ?u)]"
    by (simp add: demo_simps to_hex_def hex_digit_def)
  have o: "outcome (snd (processBuffer to_hex demo_store [] ?st)) \<notin> {Skipped, LookupFailed}"
    by (simp add: demo_simps to_hex_def hex_digit_def)
  have l: "getLatestHashes demo_store (u_owner ?u)
      (map b_pubkey (program_updates ?st (u_owner ?u))) = Inr [(''A'', ''aa''), (''B'', ''aa'')]"
    by (simp add: demo_simps program_updates_def)
  have h: "to_hex (u_data ?u) = ''02''"
    by (simp add: demo_update_def to_hex_def hex_digit_def)
  from last_update_decides_row [OF keyed_new f u refl o l] h b show ?thesis
    by (simp add: map_get_def demo_update_def)
qed

theorem failed_insert_keeps_buffer_witness:
  "batch (snd (processBuffer to_hex failing_store []
      (addUpdate to_hex new_ChangeProcessor (demo_update ''A'' 1 [1])))) =
     [to_state (to_buffered to_hex (demo_update ''A'' 1 [1]))] \<and>
   buffer (fst (processBuffer to_hex failing_store []
      (addUpdate to_hex new_ChangeProcessor (demo_update ''A'' 1 [1])))) =
     buffer (addUpdate to_hex new_ChangeProcessor (demo_update ''A'' 1 [1])) \<and>
   thrown (snd (processBuffer to_hex failing_store []
      (addUpdate to_hex new_ChangeProcessor (demo_update ''A'' 1 [1])))) = None \<and>
   logged (snd (processBuffer to_hex failing_store []
      (addUpdate to_hex new_ChangeProcessor (demo_update ''A'' 1 [1])))) =
     Some (StoreError ''insert failed'') \<and>
   snd (processBuffer to_hex failing_store []
      (fst (processBuffer to_hex failing_store []
         (addUpdate to_hex new_ChangeProcessor (demo_update ''A'' 1 [1]))))) =
   snd (processBuffer to_hex failing_store []
      (addUpdate to_hex new_ChangeProcessor (demo_update ''A'' 1 [1])))"
proof -
  let ?st = "addUpdate to_hex new_ChangeProcessor (demo_update ''A'' 1 [1])"
  let ?r = "processBuffer to_hex failing_store [] ?st"
  have p: "?r = (fst ?r, snd ?r)" by simp
  have b: "batch (snd ?r) = [to_state (to_buffered to_hex (demo_update ''A'' 1 [1]))]"
    by (simp add: demo_simps to_hex_def hex_digit_def)
  then have n: "batch (snd ?r) \<noteq> []" by simp
  have i: "insert_account_state failing_store (batch (snd ?r)) = Some (StoreError ''insert failed'')"
    by (simp add: failing_store_def)
  from failed_insert_keeps_buffer [OF p n i] b show ?thesis
    by simp
qed

section \<open>StreamConnection: results\<close>

lemma reconnect_delay_eq: "reconnect_delay n = min (1000 * 2 ^ n) 60000"
  by (simp add: reconnect_delay_def baseReconnectDelay_def maxReconnectDelay_def)

lemma reconnect_delay_first:
  "map reconnect_delay [0..<8] = [1000, 2000, 4000, 8000, 16000, 32000, 60000, 60000]"
  by (simp add: reconnect_delay_eq upt_rec)

lemma reconnect_delay_capped: "6 \<le> n \<Longrightarrow> reconnect_delay n = 60000"
proof -
  assume "6 \<le> n"
  then have "(64::nat) \<le> 2 ^ n"
    using power_increasing [of 6 n "2::nat"] by simp
  then have "(60000::nat) \<le> 1000 * 2 ^ n" by simp
  then show ?thesis by (simp add: reconnect_delay_eq)
qed

lemma handleDisconnect_idle:
  assumes "\<not> reconnecting c"
  shows "handleDisconnect c =
     (if reconnectAttempts c \<ge> 20 then c\<lparr>pingInterval := False\<rparr>
      else c\<lparr>reconnecting := True, pingInterval := False,
             reconnectAttempts := reconnectAttempts c + 1,
             scheduled := scheduled c @ [min (1000 * 2 ^ reconnectAttempts c) 60000]\<rparr>)"
  using assms
  by (simp add: handleDisconnect_def stopPingInterval_def maxReconnectAttempts_def Let_def
      reconnect_delay_eq)

lemma handleDisconnect_busy: "reconnecting c \<Longrightarrow> handleDisconnect c = c"
  by (simp add: handleDisconnect_def)

lemma reconnect_timer_failed:
  "reconnect_timer (Inl e) c = handleDisconnect (c\<lparr>reconnecting := False\<rparr>)"
  by (simp add: reconnect_timer_def connect_def)

lemma failed_reconnects_state:
  assumes "\<not> reconnecting c" and "reconnectAttempts c = 0"
  shows "scheduled (failed_reconnects k c) =
           scheduled c @ map (\<lambda>n. min (1000 * 2 ^ n) 60000) [0..<min (Suc k) 20] \<and>
         reconnectAttempts (failed_reconnects k c) = min (Suc k) 20 \<and>
         reconnecting (failed_reconnects k c) = (k < 20)"
proof (induction k)
  case 0
  from assms show ?case by (simp add: handleDisconnect_idle)
next
  case (Suc k)
  let ?c = "failed_reconnects k c"
  show ?case
  proof (cases "k < 20")
    case True
    with Suc have r: "reconnecting ?c" and a: "reconnectAttempts ?c = Suc k"
      and s: "scheduled ?c = scheduled c @ map (\<lambda>n. min (1000 * 2 ^ n) 60000) [0..<Suc k]"
      by simp_all
    have step: "failed_reconnects (Suc k) c = handleDisconnect (?c\<lparr>reconnecting := False\<rparr>)"
      using r by (simp add: reconnect_timer_failed)
    show ?thesis
    proof (cases "Suc k < 20")
      case True
      then have m: "min (Suc (Suc k)) 20 = Suc (Suc k)" by simp
      from True show ?thesis
        unfolding step m by (simp add: handleDisconnect_idle a s)
    next
      case False
      with True have k: "k = 19" by simp
      then have m: "min (Suc (Suc k)) 20 = 20" "min (Suc k) 20 = 20" by simp_all
      show ?thesis
        unfolding step using a s k by (simp add: handleDisconnect_idle)
    qed
  next
    case False
    with Suc have "\<not> reconnecting ?c" by simp
    then have "failed_reconnects (Suc k) c = ?c" by simp
    with Suc False show ?thesis by simp
  qed
qed

lemma subscribeToProgram_keeps:
  "snd (subscribeToProgram programId c) =
   c\<lparr>subscriptions := subscriptions (snd (subscribeToProgram programId c))\<rparr>"
  by (simp add: subscribeToProgram_def)

lemma subscribe_all_keeps:
  "foldl (\<lambda>c' programId. snd (subscribeToProgram programId c')) c programs =
   c\<lparr>subscriptions :=
       subscriptions (foldl (\<lambda>c' programId. snd (subscribeToProgram programId c')) c programs)\<rparr>"
proof (induction programs arbitrary: c)
  case Nil
  then show ?case by simp
next
  case (Cons p programs)
  let ?f = "\<lambda>c' programId. snd (subscribeToProgram programId c')"
  let ?c1 = "snd (subscribeToProgram p c)"
  have "foldl ?f ?c1 programs = ?c1\<lparr>subscriptions := subscriptions (foldl ?f ?c1 programs)\<rparr>"
    by (rule Cons.IH)
  also have "\<dots> = c\<lparr>subscriptions := subscriptions (foldl ?f ?c1 programs)\<rparr>"
    by (subst subscribeToProgram_keeps) simp
  finally show ?case by simp
qed

lemma resubscribeAll_keeps:
  "resubscribeAll c = c\<lparr>subscriptions := subscriptions (resubscribeAll c)\<rparr>"
proof -
  let ?f = "\<lambda>c' programId. snd (subscribeToProgram programId c')"
  let ?r = "foldl ?f (c\<lparr>subscriptions := []\<rparr>) (map_keys (subscriptions c))"
  have "?r = (c\<lparr>subscriptions := []\<rparr>)\<lparr>subscriptions := subscriptions ?r\<rparr>"
    by (rule subscribe_all_keeps)
  then show ?thesis
    by (simp add: resubscribeAll_def Let_def)
qed

lemma resubscribeAll_fields:
  "scheduled (resubscribeAll c) = scheduled c"
  "written (resubscribeAll c) = written c"
  "stream (resubscribeAll c) = stream c"
  "reconnecting (resubscribeAll c) = reconnecting c"
  "reconnectAttempts (resubscribeAll c) = reconnectAttempts c"
  "pingInterval (resubscribeAll c) = pingInterval c"
  by (subst resubscribeAll_keeps, simp)+

lemma counter_kept:
  "reconnectAttempts d \<le> reconnectAttempts (handleDisconnect d)"
  "reconnectAttempts d \<le> reconnectAttempts (reconnect_timer (Inl e) d)"
  "reconnectAttempts (snd (connect opened d)) = reconnectAttempts d"
  "reconnectAttempts (disconnect d) = reconnectAttempts d"
  "reconnectAttempts (snd (subscribeToProgram programId d)) = reconnectAttempts d"
  "reconnectAttempts (snd (sendSubscriptions write_error d)) = reconnectAttempts d"
  "reconnectAttempts (snd (unsubscribeFromProgram write_error programId d)) = reconnectAttempts d"
proof -
  show h: "reconnectAttempts d \<le> reconnectAttempts (handleDisconnect d)" for d
    by (simp add: handleDisconnect_def stopPingInterval_def Let_def)
  from h [of "d\<lparr>reconnecting := False\<rparr>"]
  show "reconnectAttempts d \<le> reconnectAttempts (reconnect_timer (Inl e) d)"
    by (simp add: reconnect_timer_failed)
  show "reconnectAttempts (snd (connect opened d)) = reconnectAttempts d"
    by (cases opened)
       (simp_all add: connect_def resubscribeAll_fields startPingInterval_def stopPingInterval_def)
  show "reconnectAttempts (disconnect d) = reconnectAttempts d"
    by (simp add: disconnect_def stopPingInterval_def)
  show "reconnectAttempts (snd (subscribeToProgram programId d)) = reconnectAttempts d"
    by (simp add: subscribeToProgram_def)
  show "reconnectAttempts (snd (sendSubscriptions write_error d)) = reconnectAttempts d"
    by (simp add: sendSubscriptions_def split: option.splits)
  show "reconnectAttempts (snd (unsubscribeFromProgram write_error programId d)) = reconnectAttempts d"
    by (simp add: unsubscribeFromProgram_def Let_def split: option.splits)
qed

text \<open>
  Claim C8. After a break of the stream and \<open>k\<close> failed reconnects the timers set so
  far carry the delays \<open>min (1000 * 2 ^ n) 60000\<close> for \<open>n = 0, 1, \<dots>\<close>, at most twenty of
  them, and the counter stands at the number of timers set. While a timer is pending a
  further stream event is ignored; when the counter has reached 20 the failed reconnect
  sets no timer, the client stops reconnecting and every later stream event sets none
  either. A reconnect that succeeds puts the counter back to 0, and the next break starts
  again at 1000. No other step of the client lowers the counter.
\<close>

theorem reconnect_backoff:
  assumes "\<not> reconnecting c" and "reconnectAttempts c = 0"
  shows "scheduled (failed_reconnects k c) =
           scheduled c @ map (\<lambda>n. min (1000 * 2 ^ n) 60000) [0..<min (Suc k) 20] \<and>
         reconnectAttempts (failed_reconnects k c) = min (Suc k) 20 \<and>
         reconnecting (failed_reconnects k c) = (k < 20) \<and>
         scheduled (handleDisconnect (failed_reconnects k c)) = scheduled (failed_reconnects k c) \<and>
         reconnectAttempts (reconnect_timer (Inr s) (failed_reconnects k c)) = 0 \<and>
         \<not> reconnecting (reconnect_timer (Inr s) (failed_reconnects k c)) \<and>
         scheduled (handleDisconnect (reconnect_timer (Inr s) (failed_reconnects k c))) =
           scheduled (failed_reconnects k c) @ [1000] \<and>
         map (\<lambda>n. min (1000 * 2 ^ n) 60000) [0..<8] =
           [1000, 2000, 4000, 8000, 16000, 32000, 60000, (60000::nat)] \<and>
         reconnectAttempts d \<le> reconnectAttempts (handleDisconnect d) \<and>
         reconnectAttempts d \<le> reconnectAttempts (reconnect_timer (Inl e) d) \<and>
         reconnectAttempts (snd (connect opened d)) = reconnectAttempts d \<and>
         reconnectAttempts (disconnect d) = reconnectAttempts d \<and>
         reconnectAttempts (snd (subscribeToProgram programId d)) = reconnectAttempts d \<and>
         reconnectAttempts (snd (sendSubscriptions write_error d)) = reconnectAttempts d \<and>
         reconnectAttempts (snd (unsubscribeFromProgram write_error programId d)) =
           reconnectAttempts d"
proof -
  let ?c = "failed_reconnects k c"
  note st = failed_reconnects_state [OF assms, of k]
  have d: "map reconnect_delay xs = map (\<lambda>n. min (1000 * 2 ^ n) 60000) xs" for xs
    by (simp add: reconnect_delay_eq)
  have 1: "scheduled ?c = scheduled c @ map (\<lambda>n. min (1000 * 2 ^ n) 60000) [0..<min (Suc k) 20]"
    using st by blast
  have 4: "scheduled (handleDisconnect ?c) = scheduled ?c"
  proof (cases "k < 20")
    case True
    with st show ?thesis by (simp add: handleDisconnect_busy)
  next
    case False
    with st have "\<not> reconnecting ?c" and "reconnectAttempts ?c = 20" by simp_all
    then show ?thesis by (simp add: handleDisconnect_idle)
  qed
  have ok: "reconnect_timer (Inr s) ?c =
      (resubscribeAll (startPingInterval (?c\<lparr>stream := Some s\<rparr>)))\<lparr>reconnectAttempts := 0, reconnecting := False\<rparr>"
    by (simp add: reconnect_timer_def connect_def)
  have 5: "reconnectAttempts (reconnect_timer (Inr s) ?c) = 0"
    and 6: "\<not> reconnecting (reconnect_timer (Inr s) ?c)"
    by (simp_all add: ok)
  have "scheduled (reconnect_timer (Inr s) ?c) = scheduled ?c"
    by (simp add: ok resubscribeAll_fields startPingInterval_def stopPingInterval_def)
  with 5 6 have 7: "scheduled (handleDisconnect (reconnect_timer (Inr s) ?c)) = scheduled ?c @ [1000]"
    by (simp add: handleDisconnect_idle)
  have 8: "map (\<lambda>n. min (1000 * 2 ^ n) 60000) [0..<8] =
           [1000, 2000, 4000, 8000, 16000, 32000, 60000, (60000::nat)]"
    using reconnect_delay_first unfolding d .
  from st have 2: "reconnectAttempts ?c = min (Suc k) 20" and 3: "reconnecting ?c = (k < 20)"
    by blast+
  from 1 2 3 4 5 6 7 8 show ?thesis
    by (simp only: counter_kept simp_thms)
qed

lemmas grpc_simps = new_GrpcClient_def connect_def resubscribeAll_def subscribeToProgram_def
  sendSubscriptions_def unsubscribeFromProgram_def startPingInterval_def stopPingInterval_def
  handleDisconnect_def reconnect_timer_def disconnect_def map_keys_def map_has_def map_get_def
  map_delete_def maxReconnectAttempts_def reconnect_delay_eq Let_def

lemma started_eq:
  "started =
     \<lparr>stream = Some 0,
      subscriptions =
        [(''MFv2hWf31Z9kbCa1snEPYctwafyhdvnV7FZnsebVacA'',
          ''program_MFv2hWf31Z9kbCa1snEPYctwafyhdvnV7FZnsebVacA''),
         (''stag8sTKds2h4KzjUw3zKTsxbqvT4XKHdaR9X9E6Rct'',
          ''program_stag8sTKds2h4KzjUw3zKTsxbqvT4XKHdaR9X9E6Rct'')],
      reconnecting = False, reconnectAttempts = 0, pingInterval = True,
      written =
        [(0, \<lparr>accounts =
                [(''program_MFv2hWf31Z9kbCa1snEPYctwafyhdvnV7FZnsebVacA'',
                  \<lparr>f_owner = [''MFv2hWf31Z9kbCa1snEPYctwafyhdvnV7FZnsebVacA''],
                   f_account = [], f_filters = []\<rparr>),
                 (''program_stag8sTKds2h4KzjUw3zKTsxbqvT4XKHdaR9X9E6Rct'',
                  \<lparr>f_owner = [''stag8sTKds2h4KzjUw3zKTsxbqvT4XKHdaR9X9E6Rct''],
                   f_account = [], f_filters = []\<rparr>)],
              slots = [(''slots'', True)], commitment = Some CONFIRMED, ping = None\<rparr>)],
      scheduled = []\<rparr>"
  by (simp add: started_def PROGRAM_IDS_def grpc_simps subscription_request_def)

text \<open>
  Claim C6. The worker starts, subscribes to its two programs and sends one combined
  request on the stream \<open>0\<close>. The stream breaks and the reconnect timer opens the stream
  \<open>1\<close>: \<open>resubscribeAll\<close> rebuilds the subscription map through \<open>subscribeToProgram\<close>,
  which only records the entries, and nothing calls \<open>sendSubscriptions\<close>. The client
  counts the reconnect as a success, and no request has been written to the new stream.
\<close>

theorem reconnect_sends_no_subscription:
  "map_keys (subscriptions started) = PROGRAM_IDS \<and>
   written started = [(0, subscription_request (subscriptions started))] \<and>
   scheduled (handleDisconnect started) = [1000] \<and>
   stream reconnected = Some 1 \<and>
   subscriptions reconnected = subscriptions started \<and>
   reconnectAttempts reconnected = 0 \<and>
   \<not> reconnecting reconnected \<and>
   written reconnected = written started \<and>
   filter (\<lambda>w. fst w = 1) (written reconnected) = []"
  by (simp add: reconnected_def started_eq PROGRAM_IDS_def grpc_simps subscription_request_def)

lemma connect_writes_nothing: "written (snd (connect opened c)) = written c"
  by (cases opened)
     (simp_all add: connect_def resubscribeAll_fields startPingInterval_def stopPingInterval_def)

text \<open>
  Claim C10. With no open stream each of the three subscription operations is rejected
  with the error \<open>gRPC stream not connected\<close> and leaves the client, its subscription
  map included, as it was. A new client and a client after \<open>disconnect\<close> have no open
  stream (see the scenario after the theorem).
\<close>

theorem operations_need_open_stream:
  assumes "stream c = None"
  shows "subscribeToProgram programId c = (Some StreamNotConnected, c) \<and>
         sendSubscriptions write_error c = (Some StreamNotConnected, c) \<and>
         unsubscribeFromProgram write_error programId c = (Some StreamNotConnected, c)"
  using assms
  by (simp add: subscribeToProgram_def sendSubscriptions_def unsubscribeFromProgram_def)

theorem operations_need_open_stream_witness:
  "stream new_GrpcClient = None \<and>
   subscribeToProgram ''P'' new_GrpcClient = (Some StreamNotConnected, new_GrpcClient) \<and>
   sendSubscriptions None new_GrpcClient = (Some StreamNotConnected, new_GrpcClient) \<and>
   unsubscribeFromProgram None ''P'' new_GrpcClient = (Some StreamNotConnected, new_GrpcClient) \<and>
   stream (disconnect started) = None \<and>
   subscribeToProgram ''P'' (disconnect started) = (Some StreamNotConnected, disconnect started) \<and>
   sendSubscriptions None (disconnect started) = (Some StreamNotConnected, disconnect started) \<and>
   unsubscribeFromProgram None ''P'' (disconnect started) =
     (Some StreamNotConnected, disconnect started)"
proof -
  have n: "stream new_GrpcClient = None"
    by (simp add: new_GrpcClient_def)
  have d: "stream (disconnect started) = None"
    by (simp add: disconnect_def stopPingInterval_def)
  from operations_need_open_stream [OF n, of "''P''" None]
    operations_need_open_stream [OF d, of "''P''" None] n d
  show ?thesis by simp
qed

text \<open>
  Claim C7. The request of \<open>unsubscribeFromProgram\<close> does not reflect the subscriptions
  that remain. With the two programs of the worker subscribed and an open stream,
  unsubscribing from the first succeeds and leaves the second in the subscription map;
  the request written is the empty one, with no filter for the second program, and it is
  not the combined request that \<open>sendSubscriptions\<close> builds from the remaining map.
\<close>

theorem unsubscribe_request_not_remaining_set:
  "fst (unsubscribeFromProgram None ''MFv2hWf31Z9kbCa1snEPYctwafyhdvnV7FZnsebVacA'' started) = None \<and>
   subscriptions (snd (unsubscribeFromProgram None ''MFv2hWf31Z9kbCa1snEPYctwafyhdvnV7FZnsebVacA'' started)) =
     [(''stag8sTKds2h4KzjUw3zKTsxbqvT4XKHdaR9X9E6Rct'',
       ''program_stag8sTKds2h4KzjUw3zKTsxbqvT4XKHdaR9X9E6Rct'')] \<and>
   written (snd (unsubscribeFromProgram None ''MFv2hWf31Z9kbCa1snEPYctwafyhdvnV7FZnsebVacA'' started)) =
     written started @ [(0, empty_request)] \<and>
   accounts empty_request = [] \<and>
   accounts (subscription_request
     (subscriptions (snd (unsubscribeFromProgram None ''MFv2hWf31Z9kbCa1snEPYctwafyhdvnV7FZnsebVacA'' started)))) =
     [(''program_stag8sTKds2h4KzjUw3zKTsxbqvT4XKHdaR9X9E6Rct'',
       \<lparr>f_owner = [''stag8sTKds2h4KzjUw3zKTsxbqvT4XKHdaR9X9E6Rct''],
        f_account = [], f_filters = []\<rparr>)] \<and>
   empty_request \<noteq>
     subscription_request
       (subscriptions (snd (unsubscribeFromProgram None ''MFv2hWf31Z9kbCa1snEPYctwafyhdvnV7FZnsebVacA'' started)))"
  by (simp add: started_eq grpc_simps subscription_request_def empty_request_def)

lemma map_get_map_delete:
  "map_get (map_delete k m) k' = (if k' = k then None else map_get m k')"
  by (induction m) (auto simp: map_get_def map_delete_def)

text \<open>
  The same holds for every client: for a subscribed program and an open stream the
  request written is the empty one, whatever remains subscribed. The entry of the
  program is removed in the callback of a successful write, every other entry is kept,
  and when the write fails the error is the result and the subscription map is unchanged.
\<close>

lemma unsubscribe_sends_empty_request:
  assumes "stream c = Some s"
    and "map_get (subscriptions c) programId = Some subscriptionKey"
    and "subscriptionKey \<noteq> []"
  shows "written (snd (unsubscribeFromProgram write_error programId c)) =
           written c @ [(s, empty_request)] \<and>
         fst (unsubscribeFromProgram write_error programId c) = write_error \<and>
         subscriptions (snd (unsubscribeFromProgram write_error programId c)) =
           (if write_error = None then map_delete programId (subscriptions c)
            else subscriptions c) \<and>
         map_get (map_delete programId (subscriptions c)) other =
           (if other = programId then None else map_get (subscriptions c) other)"
  using assms
  by (simp add: unsubscribeFromProgram_def Let_def map_get_map_delete split: option.splits)

lemma unsubscribe_sends_empty_request_started:
  "written (snd (unsubscribeFromProgram None ''MFv2hWf31Z9kbCa1snEPYctwafyhdvnV7FZnsebVacA'' started)) =
     written started @ [(0, empty_request)] \<and>
   map_keys (subscriptions
     (snd (unsubscribeFromProgram None ''MFv2hWf31Z9kbCa1snEPYctwafyhdvnV7FZnsebVacA'' started))) =
     [''stag8sTKds2h4KzjUw3zKTsxbqvT4XKHdaR9X9E6Rct''] \<and>
   subscriptions
     (snd (unsubscribeFromProgram (Some (WriteError ''closed''))
        ''MFv2hWf31Z9kbCa1snEPYctwafyhdvnV7FZnsebVacA'' started)) = subscriptions started"
proof -
  have s: "stream started = Some 0"
    by (simp add: started_eq)
  have g: "map_get (subscriptions started) ''MFv2hWf31Z9kbCa1snEPYctwafyhdvnV7FZnsebVacA'' =
      Some ''program_MFv2hWf31Z9kbCa1snEPYctwafyhdvnV7FZnsebVacA''"
    by (simp add: started_eq map_get_def)
  have k: "''program_MFv2hWf31Z9kbCa1snEPYctwafyhdvnV7FZnsebVacA'' \<noteq> []"
    by simp
  have d: "map_keys (map_delete ''MFv2hWf31Z9kbCa1snEPYctwafyhdvnV7FZnsebVacA'' (subscriptions started)) =
      [''stag8sTKds2h4KzjUw3zKTsxbqvT4XKHdaR9X9E6Rct'']"
    by (simp add: started_eq map_keys_def map_delete_def)
  from unsubscribe_sends_empty_request [OF s g k, of None]
    unsubscribe_sends_empty_request [OF s g k, of "Some (WriteError ''closed'')"] d
  show ?thesis by simp
qed

theorem reconnect_backoff_witness:
  "\<not> reconnecting started \<and> reconnectAttempts started = 0 \<and>
   scheduled (failed_reconnects 2 started) = [1000, 2000, 4000] \<and>
   reconnectAttempts (failed_reconnects 2 started) = 3 \<and>
   reconnecting (failed_reconnects 2 started) \<and>
   reconnectAttempts (reconnect_timer (Inr 1) (failed_reconnects 2 started)) = 0 \<and>
   length (scheduled (failed_reconnects 25 started)) = 20 \<and>
   reconnectAttempts (failed_reconnects 25 started) = 20 \<and>
   \<not> reconnecting (failed_reconnects 25 started) \<and>
   scheduled (handleDisconnect (failed_reconnects 25 started)) =
     scheduled (failed_reconnects 25 started)"
proof -
  have r: "\<not> reconnecting started" and a: "reconnectAttempts started = 0"
    and s: "scheduled started = []"
    by (simp_all add: started_eq)
  have u: "[0..<3] = [0, 1, 2::nat]"
    by (simp add: upt_rec)
  from reconnect_backoff [OF r a, of 2 1] reconnect_backoff [OF r a, of 25 1] r a s u
  show ?thesis by simp
qed

section \<open>RetentionPruner: results\<close>

lemma desc_filter_take:
  fixes s :: "nat list"
  assumes d: "sorted_wrt (\<lambda>a b. b < a) s" and k: "0 < K" "K \<le> length s"
  shows "filter (\<lambda>t. \<not> t < s ! (K - 1)) s = take K s"
    and "filter (\<lambda>t. t < s ! (K - 1)) s = drop K s"
proof -
  let ?c = "s ! (K - 1)"
  have hi: "\<not> x < ?c" if "x \<in> set (take K s)" for x
  proof -
    from that obtain i where i: "i < K" "i < length s" "x = s ! i"
      by (auto simp: in_set_conv_nth)
    show ?thesis
    proof (cases "i = K - 1")
      case True
      with i show ?thesis by simp
    next
      case False
      with i k have "i < K - 1" "K - 1 < length s" by simp_all
      with sorted_wrt_nth_less [OF d, of i "K - 1"] have "s ! (K - 1) < s ! i"
        by simp
      with i show ?thesis by simp
    qed
  qed
  have lo: "x < ?c" if "x \<in> set (drop K s)" for x
  proof -
    from that obtain j where j: "j < length s - K" "x = s ! (K + j)"
      by (auto simp: in_set_conv_nth)
    with k have "K - 1 < K + j" "K + j < length s" by simp_all
    with sorted_wrt_nth_less [OF d, of "K - 1" "K + j"] have "s ! (K + j) < s ! (K - 1)"
      by simp
    with j show ?thesis by simp
  qed
  have t1: "filter (\<lambda>t. \<not> t < ?c) (take K s) = take K s"
    using hi by (simp add: filter_id_conv)
  have d1: "filter (\<lambda>t. \<not> t < ?c) (drop K s) = []"
    using lo by (simp add: filter_empty_conv)
  have t2: "filter (\<lambda>t. t < ?c) (take K s) = []"
    using hi by (simp add: filter_empty_conv)
  have d2: "filter (\<lambda>t. t < ?c) (drop K s) = drop K s"
    using lo by (simp add: filter_id_conv)
  have "filter (\<lambda>t. \<not> t < ?c) (take K s) @ filter (\<lambda>t. \<not> t < ?c) (drop K s) =
      filter (\<lambda>t. \<not> t < ?c) (take K s @ drop K s)"
    by (rule filter_append [symmetric])
  from this [unfolded t1 d1] show "filter (\<lambda>t. \<not> t < ?c) s = take K s"
    by simp
  have "filter (\<lambda>t. t < ?c) (take K s) @ filter (\<lambda>t. t < ?c) (drop K s) =
      filter (\<lambda>t. t < ?c) (take K s @ drop K s)"
    by (rule filter_append [symmetric])
  from this [unfolded t2 d2] show "filter (\<lambda>t. t < ?c) s = drop K s"
    by simp
qed

lemma desc_sorted: "distinct ts \<Longrightarrow> sorted_wrt (\<lambda>a b. b < a) (rev (sort ts))" for ts :: "nat list"
proof -
  assume "distinct ts"
  then have "sorted_wrt (<) (sort ts)"
    by (simp add: strict_sorted_iff)
  then show ?thesis
    by (simp add: sorted_wrt_rev)
qed

lemma length_filter_sort: "length (filter P (rev (sort ts))) = length (filter P ts)" for ts :: "nat list"
proof -
  have "filter P (rev (sort ts)) = rev (sort (filter P ts))"
    by (simp only: filter_sort rev_filter [symmetric])
  then show ?thesis
    by simp
qed

lemma timestamps_delete_older:
  "record_timestamps (delete_older table programId pubkey cutoff) programId pubkey =
   filter (\<lambda>t. \<not> t < cutoff) (record_timestamps table programId pubkey)"
  by (induction table) (auto simp: record_timestamps_def delete_older_def)

lemma others_delete_older:
  "filter (\<lambda>r. \<not> same_record programId pubkey r) (delete_older table programId pubkey cutoff) =
   filter (\<lambda>r. \<not> same_record programId pubkey r) table"
  by (induction table) (auto simp: delete_older_def)

lemma length_delete_older:
  "length table - length (delete_older table programId pubkey cutoff) =
   length (filter (\<lambda>t. t < cutoff) (record_timestamps table programId pubkey))"
proof -
  have "length table = length (delete_older table programId pubkey cutoff) +
      length (filter (\<lambda>t. t < cutoff) (record_timestamps table programId pubkey))"
    by (induction table) (auto simp: record_timestamps_def delete_older_def)
  then show ?thesis by simp
qed

lemma prune_result:
  assumes "0 < K"
  shows "pruneAccountChanges K None None table programId pubkey =
     (if length (record_timestamps table programId pubkey) < K
      then Inr (0, table, [SelectRecent programId pubkey K])
      else Inr (length (filter (\<lambda>t. t < rev (sort (record_timestamps table programId pubkey)) ! (K - 1))
                          (record_timestamps table programId pubkey)),
                delete_older table programId pubkey
                  (rev (sort (record_timestamps table programId pubkey)) ! (K - 1)),
                [SelectRecent programId pubkey K,
                 DeleteOlder programId pubkey
                   (rev (sort (record_timestamps table programId pubkey)) ! (K - 1))]))"
proof (cases "length (record_timestamps table programId pubkey) < K")
  case True
  then show ?thesis
    by (simp add: pruneAccountChanges_def select_recent_def Let_def)
next
  case False
  let ?ts = "record_timestamps table programId pubkey"
  let ?keep = "take K (rev (sort ?ts))"
  from False assms have len: "length ?keep = K"
    by simp
  with assms have ne: "?keep \<noteq> []"
    by (metis length_0_conv less_numeral_extra(3))
  have "?keep ! (length ?keep - 1) = rev (sort ?ts) ! (K - 1)"
    using assms False by (simp add: min_def)
  with False ne len show ?thesis
    by (simp add: pruneAccountChanges_def select_recent_def Let_def length_delete_older)
qed

text \<open>
  Claim C9. With a positive limit \<open>K\<close> and no error from the database: a record with
  fewer than \<open>K\<close> rows gets the select only and the table is unchanged; a record with at
  least \<open>K\<close> rows gets the select and one delete, of its rows below the \<open>K\<close>-th newest
  timestamp, and no row of another record is removed. When the timestamps of the record
  are distinct (they are part of the primary key) the delete removes \<open>n - K\<close> of its
  \<open>n\<close> rows and the \<open>K\<close> newest remain.
\<close>

theorem prune_keeps_most_recent:
  assumes "0 < K"
  shows "pruneAccountChanges K None None table programId pubkey =
     (if length (record_timestamps table programId pubkey) < K
      then Inr (0, table, [SelectRecent programId pubkey K])
      else Inr (length (filter (\<lambda>t. t < rev (sort (record_timestamps table programId pubkey)) ! (K - 1))
                          (record_timestamps table programId pubkey)),
                delete_older table programId pubkey
                  (rev (sort (record_timestamps table programId pubkey)) ! (K - 1)),
                [SelectRecent programId pubkey K,
                 DeleteOlder programId pubkey
                   (rev (sort (record_timestamps table programId pubkey)) ! (K - 1))])) \<and>
     (distinct (record_timestamps table programId pubkey) \<and>
      K \<le> length (record_timestamps table programId pubkey) \<longrightarrow>
        length (filter (\<lambda>t. t < rev (sort (record_timestamps table programId pubkey)) ! (K - 1))
                  (record_timestamps table programId pubkey)) =
          length (record_timestamps table programId pubkey) - K \<and>
        rev (sort (record_timestamps
          (delete_older table programId pubkey
             (rev (sort (record_timestamps table programId pubkey)) ! (K - 1)))
          programId pubkey)) =
        take K (rev (sort (record_timestamps table programId pubkey)))) \<and>
     filter (\<lambda>r. \<not> same_record programId pubkey r)
       (delete_older table programId pubkey
          (rev (sort (record_timestamps table programId pubkey)) ! (K - 1))) =
     filter (\<lambda>r. \<not> same_record programId pubkey r) table"
proof -
  let ?ts = "record_timestamps table programId pubkey"
  let ?s = "rev (sort ?ts)"
  let ?c = "?s ! (K - 1)"
  have n: "length (filter (\<lambda>t. t < ?c) ?ts) = length ?ts - K"
    if "distinct ?ts" and "K \<le> length ?ts"
  proof -
    from that have d: "sorted_wrt (\<lambda>a b. b < a) ?s" and "K \<le> length ?s"
      by (simp_all add: desc_sorted)
    from desc_filter_take(2) [OF d assms this(2)]
    have "length (filter (\<lambda>t. t < ?c) ?s) = length ?ts - K" by simp
    then show ?thesis by (simp add: length_filter_sort)
  qed
  have kept: "rev (sort (record_timestamps (delete_older table programId pubkey ?c) programId pubkey)) =
      take K ?s" if "distinct ?ts" and "K \<le> length ?ts"
  proof -
    from that have d: "sorted_wrt (\<lambda>a b. b < a) ?s" and "K \<le> length ?s"
      by (simp_all add: desc_sorted)
    from desc_filter_take(1) [OF d assms this(2)]
    have "filter (\<lambda>t. \<not> t < ?c) ?s = take K ?s" .
    moreover have "rev (sort (filter (\<lambda>t. \<not> t < ?c) ?ts)) = filter (\<lambda>t. \<not> t < ?c) ?s"
      by (simp only: filter_sort rev_filter [symmetric])
    ultimately show ?thesis
      by (simp add: timestamps_delete_older)
  qed
  show ?thesis
    using n kept by (simp add: prune_result [OF assms] others_delete_older)
qed

theorem prune_keeps_most_recent_witness:
  "pruneAccountChanges 10 None None demo_table ''P'' ''A'' =
     Inr (5, delete_older demo_table ''P'' ''A'' 106,
          [SelectRecent ''P'' ''A'' 10, DeleteOlder ''P'' ''A'' 106]) \<and>
   rev (sort (record_timestamps (delete_older demo_table ''P'' ''A'' 106) ''P'' ''A'')) =
     [115, 114, 113, 112, 111, 110, 109, 108, 107, 106] \<and>
   record_timestamps (delete_older demo_table ''P'' ''A'' 106) ''P'' ''B'' =
     record_timestamps demo_table ''P'' ''B'' \<and>
   length (record_timestamps demo_table ''P'' ''B'') = 9 \<and>
   pruneAccountChanges 10 None None demo_table ''P'' ''B'' =
     Inr (0, demo_table, [SelectRecent ''P'' ''B'' 10])"
proof -
  have a: "record_timestamps demo_table ''P'' ''A'' =
      [105, 101, 115, 110, 102, 114, 103, 113, 104, 112, 106, 111, 107, 109, 108]"
    by (simp add: demo_table_def record_timestamps_def same_record_def)
  have b: "record_timestamps demo_table ''P'' ''B'' =
      [109, 101, 108, 102, 107, 103, 106, 104, 105]"
    by (simp add: demo_table_def record_timestamps_def same_record_def)
  have sa: "rev (sort (record_timestamps demo_table ''P'' ''A'')) =
      [115, 114, 113, 112, 111, 110, 109, 108, 107, 106, 105, 104, 103, 102, 101]"
    by (simp add: a)
  have da: "distinct (record_timestamps demo_table ''P'' ''A'')"
    by (simp add: a)
  have db: "distinct (record_timestamps demo_table ''P'' ''B'')"
    by (simp add: b)
  have k: "0 < (10::nat)" by simp
  have o: "record_timestamps (delete_older demo_table ''P'' ''A'' 106) ''P'' ''B'' =
      record_timestamps demo_table ''P'' ''B''"
    by (simp add: demo_table_def record_timestamps_def same_record_def delete_older_def)
  from prune_keeps_most_recent [OF k, of demo_table "''P''" "''A''"]
    prune_keeps_most_recent [OF k, of demo_table "''P''" "''B''"] o da
  show ?thesis
    by (simp add: sa) (simp add: a b)
qed

end
